theory Spec2Isabelle
  imports Main "HOL-Library.AList" "HOL-Library.Sublist"
begin

section \<open>Values, objects and the heap\<close>

text \<open>
  The codec of \<^verbatim>\<open>lib/serialization/ObjectMiddleware.js\<close> works on JavaScript values.
  Objects have identity, so they live in a heap and a value refers to them by address;
  strings, numbers and booleans are compared by value, as the keys of a JavaScript
  \<^verbatim>\<open>Map\<close> are. A \<^verbatim>\<open>Buffer\<close> is an object whose constructor is \<^verbatim>\<open>Buffer\<close>. Numbers are
  modelled as integers. A function is an opaque value: the codec only wraps it, and
  invoking the wrapper is not modelled.
\<close>

type_synonym addr = nat

datatype ctor = Object | Array | Buffer | Class string

type_synonym filename = string

datatype fn =
    UserFunction nat
  | HandleFunctionSerialization fn
  | HandleFunctionDeserialization fn filename

datatype val =
    JNull
  | JUndefined
  | JNum int
  | JBool bool
  | JStr string
  | JFun fn
  | JRef addr

datatype jsobject = JSObject (constructor_of: ctor) (properties: "(string \<times> val) list")

type_synonym heap = "jsobject list"

datatype error =
    DuplicateGlobalName val
  | NoSerializerRegistered ctor
  | NoDeserializerRegistered
  | UnexpectedEndOfStream
  | ModuleNotFound string
  | TypeError
  | RangeError
  | Thrown nat

text \<open>
  \<open>RangeError\<close> is JavaScript's "Maximum call stack size exceeded": the recursive
  functions below take the depth of stack they may use and raise it at depth 0.
  \<open>TypeError\<close> is what the runtime raises on a call through \<^verbatim>\<open>undefined\<close>;
  \<open>Thrown\<close> is an exception of code outside this repository.
\<close>

definition lookup :: "heap \<Rightarrow> addr \<Rightarrow> jsobject option" where
  "lookup h a = (if a < length h then Some (h ! a) else None)"

fun typeof :: "val \<Rightarrow> string" where
  "typeof JNull = ''object''"
| "typeof JUndefined = ''undefined''"
| "typeof (JNum n) = ''number''"
| "typeof (JBool b) = ''boolean''"
| "typeof (JStr s) = ''string''"
| "typeof (JFun f) = ''function''"
| "typeof (JRef a) = ''object''"

fun truthy :: "val \<Rightarrow> bool" where
  "truthy JNull = False"
| "truthy JUndefined = False"
| "truthy (JNum n) = (n \<noteq> 0)"
| "truthy (JBool b) = b"
| "truthy (JStr s) = (s \<noteq> [])"
| "truthy (JFun f) = True"
| "truthy (JRef a) = True"

fun Buffer_isBuffer :: "heap \<Rightarrow> val \<Rightarrow> bool" where
  "Buffer_isBuffer h (JRef a) =
     (case lookup h a of None \<Rightarrow> False | Some obj \<Rightarrow> constructor_of obj = Buffer)"
| "Buffer_isBuffer h v = False"

text \<open>\<^verbatim>\<open>obj[prop]\<close>: a missing property reads as \<^verbatim>\<open>undefined\<close>.\<close>

fun get_prop :: "heap \<Rightarrow> val \<Rightarrow> string \<Rightarrow> val" where
  "get_prop h (JRef a) prop =
     (case lookup h a of
        None \<Rightarrow> JUndefined
      | Some obj \<Rightarrow> (case map_of (properties obj) prop of None \<Rightarrow> JUndefined | Some v \<Rightarrow> v))"
| "get_prop h v prop = JUndefined"

text \<open>\<^verbatim>\<open>obj[prop] = v\<close>.\<close>

fun set_prop :: "val \<Rightarrow> string \<Rightarrow> val \<Rightarrow> heap \<Rightarrow> heap" where
  "set_prop (JRef a) prop v h =
     (if a < length h
      then h[a := JSObject (constructor_of (h ! a)) (AList.update prop v (properties (h ! a)))]
      else h)"
| "set_prop obj prop v h = h"

section \<open>Serializer capabilities and the registry\<close>

text \<open>
  A registered serializer is either the \<^verbatim>\<open>PropertiesSerializer\<close> of this repository,
  or one whose code is not part of it (the \<^verbatim>\<open>PlainObjectSerializer\<close> registered for
  \<^verbatim>\<open>Object\<close> and \<^verbatim>\<open>Array\<close>, and the serializers of plugins). The latter is taken as a
  parameter: the values its \<^verbatim>\<open>serialize\<close> hands to \<^verbatim>\<open>write\<close>, in order, and what its
  \<^verbatim>\<open>deserialize\<close> does with the values \<^verbatim>\<open>read\<close> returns before it constructs its
  result. The latter is a tree of reads, each continuing with the value read, that
  ends in a construction on every path: a \<^verbatim>\<open>deserialize\<close> that decides from the values
  read so far how many more it reads (a length followed by that many items) is such a
  tree, one that would read without end on some endless sequence of values is not.
\<close>

datatype reader = Read "val \<Rightarrow> reader" | Construct "heap \<Rightarrow> error + val \<times> heap"

datatype serializer =
    PropertiesSerializer ctor "string list" "(val \<Rightarrow> heap \<Rightarrow> error + heap) option"
  | CustomSerializer "heap \<Rightarrow> val \<Rightarrow> error + val list" reader

record config =
  request :: val
  exportName :: val
  serializer :: serializer

record registry =
  serializers :: "ctor \<rightharpoonup> config"
  globalSerializers :: "val \<rightharpoonup> serializer"

definition ESCAPE :: val where
  "ESCAPE = JNull"

definition ESCAPE_ESCAPE_VALUE :: val where
  "ESCAPE_ESCAPE_VALUE = JNum 1"

definition GLOBAL_SERIALIZER_REQUEST :: val where
  "GLOBAL_SERIALIZER_REQUEST = JNull"

text \<open>The tables as the module leaves them when it is loaded.\<close>

definition initial_registry :: "serializer \<Rightarrow> registry" where
  "initial_registry plainObjectSerializer =
     \<lparr>serializers =
        [Object \<mapsto> \<lparr>request = GLOBAL_SERIALIZER_REQUEST, exportName = JNull,
                     serializer = plainObjectSerializer\<rparr>,
         Array \<mapsto> \<lparr>request = GLOBAL_SERIALIZER_REQUEST, exportName = JNull,
                    serializer = plainObjectSerializer\<rparr>],
      globalSerializers = [JNull \<mapsto> plainObjectSerializer]\<rparr>"

text \<open>
  \<^verbatim>\<open>register\<close> returns how the call ended together with the tables as the call
  leaves them, so that a throw shows which mutations came before it.
\<close>

definition register ::
  "ctor \<Rightarrow> val \<Rightarrow> val \<Rightarrow> serializer \<Rightarrow> registry \<Rightarrow> (error + unit) \<times> registry" where
  "register Constructor req exportNm ser reg =
     (if req = GLOBAL_SERIALIZER_REQUEST then
        (if globalSerializers reg exportNm \<noteq> None then
           (Inl (DuplicateGlobalName exportNm), reg)
         else
           (let reg1 = reg\<lparr>globalSerializers := (globalSerializers reg)(exportNm \<mapsto> ser)\<rparr>
            in (Inr (),
                reg1\<lparr>serializers := (serializers reg1)(Constructor \<mapsto>
                  \<lparr>request = req, exportName = exportNm, serializer = ser\<rparr>)\<rparr>)))
      else
        (Inr (),
         reg\<lparr>serializers := (serializers reg)(Constructor \<mapsto>
           \<lparr>request = req, exportName = exportNm, serializer = ser\<rparr>)\<rparr>))"

definition registerGlobal ::
  "ctor \<Rightarrow> val \<Rightarrow> serializer \<Rightarrow> registry \<Rightarrow> (error + unit) \<times> registry" where
  "registerGlobal Constructor name ser reg =
     register Constructor GLOBAL_SERIALIZER_REQUEST name ser reg"

text \<open>
  \<^verbatim>\<open>getSerializerFor\<close>: \<^verbatim>\<open>object.constructor\<close> is the constructor of the heap object.
  A reference to no object cannot arise in JavaScript; the model raises there.
\<close>

definition getSerializerFor :: "registry \<Rightarrow> heap \<Rightarrow> val \<Rightarrow> error + config" where
  "getSerializerFor reg h object =
     (case object of
        JRef a \<Rightarrow>
          (case lookup h a of
             None \<Rightarrow> Inl TypeError
           | Some obj \<Rightarrow>
               (case serializers reg (constructor_of obj) of
                  None \<Rightarrow> Inl (NoSerializerRegistered (constructor_of obj))
                | Some cfg \<Rightarrow> Inr cfg))
      | _ \<Rightarrow> Inl TypeError)"

section \<open>The field-list capability\<close>

text \<open>
  \<^verbatim>\<open>PropertiesSerializer.serialize(obj, { write })\<close> and
  \<^verbatim>\<open>PropertiesSerializer.deserialize({ read })\<close>, with the callbacks as parameters.
  \<^verbatim>\<open>new this.Constructor()\<close> allocates an object of that constructor with no property
  of its own; constructors are code outside this repository.
\<close>

fun for_of :: "('a \<Rightarrow> 's \<Rightarrow> error + 's) \<Rightarrow> 'a list \<Rightarrow> 's \<Rightarrow> error + 's" where
  "for_of body [] st = Inr st"
| "for_of body (x # xs) st =
     (case body x st of Inl e \<Rightarrow> Inl e | Inr st' \<Rightarrow> for_of body xs st')"

definition PropertiesSerializer_serialize ::
  "string list \<Rightarrow> heap \<Rightarrow> val \<Rightarrow> (val \<Rightarrow> 's \<Rightarrow> error + 's) \<Rightarrow> 's \<Rightarrow> error + 's" where
  "PropertiesSerializer_serialize props h obj write st =
     for_of (\<lambda>prop. write (get_prop h obj prop)) props st"

record dec_state =
  currentDataPos :: nat
  currentPos' :: int
  referenceable' :: "int \<rightharpoonup> val"
  heap :: heap

fun assign_props ::
  "string list \<Rightarrow> val \<Rightarrow> (dec_state \<Rightarrow> error + val \<times> dec_state) \<Rightarrow> dec_state
     \<Rightarrow> error + dec_state" where
  "assign_props [] obj rd st = Inr st"
| "assign_props (prop # props) obj rd st =
     (case rd st of
        Inl e \<Rightarrow> Inl e
      | Inr (v, st') \<Rightarrow> assign_props props obj rd (st'\<lparr>heap := set_prop obj prop v (heap st')\<rparr>))"

definition PropertiesSerializer_deserialize ::
  "ctor \<Rightarrow> string list \<Rightarrow> (val \<Rightarrow> heap \<Rightarrow> error + heap) option
     \<Rightarrow> (dec_state \<Rightarrow> error + val \<times> dec_state) \<Rightarrow> dec_state \<Rightarrow> error + val \<times> dec_state" where
  "PropertiesSerializer_deserialize Constructor props onRestored rd st =
     (let obj = JRef (length (heap st));
          st0 = st\<lparr>heap := heap st @ [JSObject Constructor []]\<rparr>
      in case assign_props props obj rd st0 of
           Inl e \<Rightarrow> Inl e
         | Inr st1 \<Rightarrow>
             (case onRestored of
                None \<Rightarrow> Inr (obj, st1)
              | Some hook \<Rightarrow>
                  (case hook obj (heap st1) of
                     Inl e \<Rightarrow> Inl e
                   | Inr h' \<Rightarrow> Inr (obj, st1\<lparr>heap := h'\<rparr>))))"

text \<open>
  The module's export: \<^verbatim>\<open>(Constructor, request, properties, onRestored) => ...\<close>.
\<close>

definition register_PropertiesSerializer ::
  "ctor \<Rightarrow> val \<Rightarrow> string list \<Rightarrow> (val \<Rightarrow> heap \<Rightarrow> error + heap) option \<Rightarrow> registry
     \<Rightarrow> (error + unit) \<times> registry" where
  "register_PropertiesSerializer Constructor req props onRestored reg =
     register Constructor req JNull (PropertiesSerializer Constructor props onRestored) reg"

section \<open>Dispatch to a capability\<close>

fun serializer_serialize ::
  "serializer \<Rightarrow> heap \<Rightarrow> val \<Rightarrow> (val \<Rightarrow> 's \<Rightarrow> error + 's) \<Rightarrow> 's \<Rightarrow> error + 's" where
  "serializer_serialize (PropertiesSerializer Constructor props onRestored) h obj write st =
     PropertiesSerializer_serialize props h obj write st"
| "serializer_serialize (CustomSerializer writes rdr) h obj write st =
     (case writes h obj of Inl e \<Rightarrow> Inl e | Inr vs \<Rightarrow> for_of write vs st)"

primrec run_reader ::
  "(dec_state \<Rightarrow> error + val \<times> dec_state) \<Rightarrow> reader \<Rightarrow> dec_state \<Rightarrow> error + val \<times> dec_state" where
  "run_reader rd (Construct build) =
     (\<lambda>st. case build (heap st) of
             Inl e \<Rightarrow> Inl e
           | Inr (v, h') \<Rightarrow> Inr (v, st\<lparr>heap := h'\<rparr>))"
| "run_reader rd (Read k) =
     (\<lambda>st. case rd st of
             Inl e \<Rightarrow> Inl e
           | Inr (v, st') \<Rightarrow> run_reader rd (k v) st')"

fun serializer_deserialize ::
  "serializer \<Rightarrow> (dec_state \<Rightarrow> error + val \<times> dec_state) \<Rightarrow> dec_state
     \<Rightarrow> error + val \<times> dec_state" where
  "serializer_deserialize (PropertiesSerializer Constructor props onRestored) rd st =
     PropertiesSerializer_deserialize Constructor props onRestored rd st"
| "serializer_deserialize (CustomSerializer writes rdr) rd st = run_reader rd rdr st"

section \<open>The object-graph codec: serialize\<close>

record enc_state =
  result :: "val list"
  currentPos :: int
  referenceable :: "val \<rightharpoonup> int"

definition addReferenceable :: "val \<Rightarrow> enc_state \<Rightarrow> enc_state" where
  "addReferenceable item st =
     st\<lparr>referenceable := (referenceable st)(item \<mapsto> currentPos st),
        currentPos := currentPos st + 1\<rparr>"

definition push :: "val list \<Rightarrow> enc_state \<Rightarrow> enc_state" where
  "push items st = st\<lparr>result := result st @ items\<rparr>"

fun handleFunctionSerialization :: "val \<Rightarrow> val" where
  "handleFunctionSerialization (JFun f) = JFun (HandleFunctionSerialization f)"
| "handleFunctionSerialization v = v"

primrec process :: "registry \<Rightarrow> heap \<Rightarrow> nat \<Rightarrow> val \<Rightarrow> enc_state \<Rightarrow> error + enc_state" where
  "process reg h 0 = (\<lambda>item st. Inl RangeError)"
| "process reg h (Suc depth) =
     (\<lambda>item st.
        case referenceable st item of
          Some ref \<Rightarrow> Inr (push [ESCAPE, JNum (ref - currentPos st)] st)
        | None \<Rightarrow>
            if typeof item = ''object'' \<and> item \<noteq> JNull then
              (case getSerializerFor reg h item of
                 Inl e \<Rightarrow> Inl e
               | Inr cfg \<Rightarrow>
                   (case serializer_serialize (serializer cfg) h item (process reg h depth)
                           (push [ESCAPE, request cfg, exportName cfg] st) of
                      Inl e \<Rightarrow> Inl e
                    | Inr st' \<Rightarrow> Inr (addReferenceable item st')))
            else if typeof item = ''string'' then
              Inr (push [item] (addReferenceable item st))
            else if Buffer_isBuffer h item then
              Inr (push [item] (addReferenceable item st))
            else if item = ESCAPE then
              Inr (push [ESCAPE, ESCAPE_ESCAPE_VALUE] st)
            else if typeof item = ''function'' then
              Inr (push [handleFunctionSerialization item] st)
            else
              Inr (push [item] st))"

definition serialize :: "registry \<Rightarrow> heap \<Rightarrow> nat \<Rightarrow> val list \<Rightarrow> error + val list" where
  "serialize reg h depth data =
     (case for_of (process reg h depth) data
             \<lparr>result = [], currentPos = 0, referenceable = Map.empty\<rparr> of
        Inl e \<Rightarrow> Inl e
      | Inr st \<Rightarrow> Inr (result st))"

section \<open>The object-graph codec: deserialize\<close>

text \<open>
  \<^verbatim>\<open>require(request)\<close> is the module system of the host: a module value may itself be
  a constructor and may export constructors by name.
\<close>

datatype jsmodule = Module (module_value: "ctor option") (module_exports: "string \<rightharpoonup> ctor")

definition resolve :: "(string \<rightharpoonup> jsmodule) \<Rightarrow> val \<Rightarrow> val \<Rightarrow> error + ctor option" where
  "resolve require req exportNm =
     (case req of
        JStr r \<Rightarrow>
          (case require r of
             None \<Rightarrow> Inl (ModuleNotFound r)
           | Some m \<Rightarrow>
               Inr (if truthy exportNm
                    then (case exportNm of JStr e \<Rightarrow> module_exports m e | _ \<Rightarrow> None)
                    else module_value m))
      | _ \<Rightarrow> Inl TypeError)"

definition read :: "val list \<Rightarrow> dec_state \<Rightarrow> error + val \<times> dec_state" where
  "read data st =
     (if currentDataPos st \<ge> length data then Inl UnexpectedEndOfStream
      else Inr (data ! currentDataPos st, st\<lparr>currentDataPos := currentDataPos st + 1\<rparr>))"

definition addReferenceable' :: "val \<Rightarrow> dec_state \<Rightarrow> dec_state" where
  "addReferenceable' item st =
     st\<lparr>referenceable' := (referenceable' st)(currentPos' st \<mapsto> item),
        currentPos' := currentPos' st + 1\<rparr>"

fun handleFunctionDeserialization :: "val \<Rightarrow> filename \<Rightarrow> val" where
  "handleFunctionDeserialization (JFun f) context = JFun (HandleFunctionDeserialization f context)"
| "handleFunctionDeserialization v context = v"

fun number_of :: "val \<Rightarrow> int" where
  "number_of (JNum n) = n"
| "number_of v = 0"

definition find_serializer ::
  "(string \<rightharpoonup> jsmodule) \<Rightarrow> registry \<Rightarrow> val \<Rightarrow> val \<Rightarrow> error + serializer" where
  "find_serializer require reg req exportNm =
     (if req = GLOBAL_SERIALIZER_REQUEST then
        (case globalSerializers reg exportNm of
           None \<Rightarrow> Inl TypeError
         | Some ser \<Rightarrow> Inr ser)
      else
        (case resolve require req exportNm of
           Inl e \<Rightarrow> Inl e
         | Inr None \<Rightarrow> Inl NoDeserializerRegistered
         | Inr (Some requestValue) \<Rightarrow>
             (case serializers reg requestValue of
                None \<Rightarrow> Inl NoDeserializerRegistered
              | Some cfg \<Rightarrow> Inr (serializer cfg))))"

primrec decodeValue ::
  "(string \<rightharpoonup> jsmodule) \<Rightarrow> registry \<Rightarrow> filename \<Rightarrow> val list \<Rightarrow> nat \<Rightarrow> dec_state
     \<Rightarrow> error + val \<times> dec_state" where
  "decodeValue require reg context data 0 = (\<lambda>st. Inl RangeError)"
| "decodeValue require reg context data (Suc depth) =
     (\<lambda>st.
        case read data st of
          Inl e \<Rightarrow> Inl e
        | Inr (item, st1) \<Rightarrow>
            if item = ESCAPE then
              (case read data st1 of
                 Inl e \<Rightarrow> Inl e
               | Inr (nextItem, st2) \<Rightarrow>
                   if nextItem = ESCAPE_ESCAPE_VALUE then Inr (ESCAPE, st2)
                   else if typeof nextItem = ''number'' then
                     Inr (case referenceable' st2 (currentPos' st2 + number_of nextItem) of
                            None \<Rightarrow> JUndefined
                          | Some v \<Rightarrow> v,
                          st2)
                   else
                     (case read data st2 of
                        Inl e \<Rightarrow> Inl e
                      | Inr (exportNm, st3) \<Rightarrow>
                          (case find_serializer require reg nextItem exportNm of
                             Inl e \<Rightarrow> Inl e
                           | Inr ser \<Rightarrow>
                               (case serializer_deserialize ser
                                       (decodeValue require reg context data depth) st3 of
                                  Inl e \<Rightarrow> Inl e
                                | Inr (obj, st4) \<Rightarrow> Inr (obj, addReferenceable' obj st4)))))
            else if typeof item = ''string'' then Inr (item, addReferenceable' item st1)
            else if Buffer_isBuffer (heap st1) item then Inr (item, addReferenceable' item st1)
            else if typeof item = ''function'' then
              Inr (handleFunctionDeserialization item context, st1)
            else Inr (item, st1))"

text \<open>
  The loop \<^verbatim>\<open>while (currentDataPos < data.length) result.push(decodeValue())\<close> ends
  because every successful \<^verbatim>\<open>decodeValue\<close> moves the read cursor forward.
\<close>

lemma read_advances:
  "read data st = Inr (v, st') \<Longrightarrow>
     currentDataPos st' = Suc (currentDataPos st) \<and> currentDataPos st < length data"
  by (auto simp: read_def split: if_splits)

lemma assign_props_cursor:
  assumes "\<And>st v st'. rd st = Inr (v, st') \<Longrightarrow> currentDataPos st < currentDataPos st'"
  shows "assign_props props obj rd st = Inr st' \<Longrightarrow> currentDataPos st \<le> currentDataPos st'"
proof (induction props arbitrary: st)
  case Nil
  then show ?case by simp
next
  case (Cons p ps)
  then show ?case using assms by (fastforce split: sum.splits prod.splits)
qed

lemma run_reader_cursor:
  assumes "\<And>st v st'. rd st = Inr (v, st') \<Longrightarrow> currentDataPos st < currentDataPos st'"
  shows "run_reader rd rdr st = Inr (v, st') \<Longrightarrow> currentDataPos st \<le> currentDataPos st'"
proof (induction rdr arbitrary: st)
  case (Read k)
  then show ?case using assms by (fastforce split: sum.splits prod.splits)
next
  case (Construct b)
  then show ?case by (auto split: sum.splits prod.splits)
qed

lemma serializer_deserialize_cursor:
  assumes "\<And>st v st'. rd st = Inr (v, st') \<Longrightarrow> currentDataPos st < currentDataPos st'"
    and "serializer_deserialize ser rd st = Inr (v, st')"
  shows "currentDataPos st \<le> currentDataPos st'"
proof (cases ser)
  case (PropertiesSerializer C props hook)
  then show ?thesis using assms(2) assign_props_cursor[OF assms(1)]
    by (fastforce simp: PropertiesSerializer_deserialize_def Let_def
        split: sum.splits option.splits)
next
  case (CustomSerializer w r)
  then show ?thesis using assms(2) run_reader_cursor[OF assms(1)] by auto
qed

lemma decodeValue_advances:
  "decodeValue require reg context data depth st = Inr (v, st') \<Longrightarrow>
     currentDataPos st < currentDataPos st'"
proof (induction depth arbitrary: st v st')
  case 0
  then show ?case by simp
next
  case (Suc depth)
  have mono: "\<And>ser st v st'.
      serializer_deserialize ser (decodeValue require reg context data depth) st = Inr (v, st')
      \<Longrightarrow> currentDataPos st \<le> currentDataPos st'"
    using serializer_deserialize_cursor[of "decodeValue require reg context data depth"] Suc.IH
    by blast
  from Suc.prems show ?case
    by (auto simp: addReferenceable'_def split: sum.splits prod.splits if_splits
        dest!: read_advances mono)
qed

function decode_loop ::
  "(string \<rightharpoonup> jsmodule) \<Rightarrow> registry \<Rightarrow> filename \<Rightarrow> val list \<Rightarrow> nat \<Rightarrow> val list \<Rightarrow> dec_state
     \<Rightarrow> error + val list \<times> dec_state" where
  "decode_loop require reg context data depth res st =
     (if currentDataPos st < length data then
        (case decodeValue require reg context data depth st of
           Inl e \<Rightarrow> Inl e
         | Inr (v, st') \<Rightarrow> decode_loop require reg context data depth (res @ [v]) st')
      else Inr (res, st))"
  by pat_completeness auto
termination
  by (relation "measure (\<lambda>(require, reg, context, data, depth, res, st).
                  length data - currentDataPos st)")
     (auto dest: decodeValue_advances)

declare decode_loop.simps [simp del]

text \<open>
  \<^verbatim>\<open>deserialize(data, context)\<close> starts from the heap the caller has and returns the
  decoded values with the heap that holds the objects it created.
\<close>

definition deserialize ::
  "(string \<rightharpoonup> jsmodule) \<Rightarrow> registry \<Rightarrow> filename \<Rightarrow> heap \<Rightarrow> nat \<Rightarrow> val list
     \<Rightarrow> error + val list \<times> heap" where
  "deserialize require reg context h depth data =
     (case decode_loop require reg context data depth []
             \<lparr>currentDataPos = 0, currentPos' = 0, referenceable' = Map.empty, heap = h\<rparr> of
        Inl e \<Rightarrow> Inl e
      | Inr (res, st) \<Rightarrow> Inr (res, heap st))"

section \<open>The pipeline runner\<close>

text \<open>
  \<^verbatim>\<open>lib/serialization/Serializer.js\<close>. A stage returns a value or a promise; a promise
  is modelled by how it settles (\<open>Inl\<close>: rejected). The outer \<open>Inl\<close> of a stage's
  result is an exception thrown synchronously.
\<close>

datatype 'a value_or_promise = Plain 'a | Promise "error + 'a"

record 'a middleware =
  mw_serialize :: "'a list \<Rightarrow> filename \<Rightarrow> error + 'a list value_or_promise"
  mw_deserialize :: "'a list \<Rightarrow> filename \<Rightarrow> error + 'a list value_or_promise"

text \<open>\<^verbatim>\<open>p.then(f)\<close>: \<open>f\<close> runs on the value \<open>p\<close> resolved to, and only then.\<close>

fun then_promise :: "error + 'a \<Rightarrow> ('a \<Rightarrow> error + 'b value_or_promise) \<Rightarrow> error + 'b" where
  "then_promise (Inl e) f = Inl e"
| "then_promise (Inr x) f =
     (case f x of Inl e \<Rightarrow> Inl e | Inr (Plain y) \<Rightarrow> Inr y | Inr (Promise q) \<Rightarrow> q)"

fun Promise_resolve :: "'a value_or_promise \<Rightarrow> error + 'a" where
  "Promise_resolve (Plain x) = Inr x"
| "Promise_resolve (Promise p) = p"

text \<open>\<^verbatim>\<open>Array.prototype.reduce\<close> with a callback that may throw.\<close>

fun reduce :: "('b \<Rightarrow> 'm \<Rightarrow> error + 'b) \<Rightarrow> 'm list \<Rightarrow> 'b \<Rightarrow> error + 'b" where
  "reduce f [] acc = Inr acc"
| "reduce f (m # ms) acc = (case f acc m of Inl e \<Rightarrow> Inl e | Inr acc' \<Rightarrow> reduce f ms acc')"

definition serializeToFile ::
  "'a middleware list \<Rightarrow> 'a \<Rightarrow> filename \<Rightarrow> error + (error + 'a list)" where
  "serializeToFile middlewares obj filename =
     (case reduce
             (\<lambda>last middleware.
                case last of
                  Promise p \<Rightarrow>
                    Inr (Promise (then_promise p (\<lambda>data. mw_serialize middleware data filename)))
                | Plain data \<Rightarrow> mw_serialize middleware data filename)
             middlewares (Plain [obj]) of
        Inl e \<Rightarrow> Inl e
      | Inr r \<Rightarrow> Inr (Promise_resolve r))"

text \<open>\<^verbatim>\<open>array[0]\<close> of an empty array is \<^verbatim>\<open>undefined\<close>, here \<open>None\<close>.\<close>

definition deserializeFromFile ::
  "'a middleware list \<Rightarrow> filename \<Rightarrow> error + (error + 'a option)" where
  "deserializeFromFile middlewares filename =
     (case reduce
             (\<lambda>last middleware.
                case last of
                  Promise p \<Rightarrow>
                    Inr (Promise (then_promise p (\<lambda>data. mw_deserialize middleware data filename)))
                | Plain data \<Rightarrow> mw_deserialize middleware data filename)
             (rev middlewares) (Plain []) of
        Inl e \<Rightarrow> Inl e
      | Inr r \<Rightarrow>
          Inr (then_promise (Promise_resolve r)
                 (\<lambda>array. Inr (Plain (case array of [] \<Rightarrow> None | x # xs \<Rightarrow> Some x)))))"

section \<open>Notions used to state the properties\<close>

text \<open>
  What the write-side table holds at any moment of a call: positions already handed
  out, and only strings and objects as keys. A later state extends an earlier one.
\<close>

definition table_ok :: "enc_state \<Rightarrow> bool" where
  "table_ok st \<longleftrightarrow>
     0 \<le> currentPos st \<and>
     (\<forall>v r. referenceable st v = Some r \<longrightarrow>
        0 \<le> r \<and> r < currentPos st \<and>
        (typeof v = ''string'' \<or> (typeof v = ''object'' \<and> v \<noteq> JNull)))"

definition enc_extends :: "enc_state \<Rightarrow> enc_state \<Rightarrow> bool" where
  "enc_extends st st' \<longleftrightarrow>
     (table_ok st \<longrightarrow> table_ok st') \<and> currentPos st \<le> currentPos st' \<and>
     (\<exists>items. result st' = result st @ items)"

text \<open>
  The states both functions start from.
\<close>

definition enc_init :: enc_state where
  "enc_init = \<lparr>result = [], currentPos = 0, referenceable = Map.empty\<rparr>"

definition dec_init :: "heap \<Rightarrow> dec_state" where
  "dec_init h0 = \<lparr>currentDataPos = 0, currentPos' = 0, referenceable' = Map.empty, heap = h0\<rparr>"

text \<open>
  The property list a sequence of assignments \<^verbatim>\<open>obj[prop] = v\<close> leaves, and the heap
  with a new instance of a constructor that received them.
\<close>

definition assigned :: "string list \<Rightarrow> val list \<Rightarrow> (string \<times> val) list \<Rightarrow> (string \<times> val) list" where
  "assigned props vs fs0 = foldl (\<lambda>fs (p, v). AList.update p v fs) fs0 (zip props vs)"

definition populated :: "ctor \<Rightarrow> string list \<Rightarrow> val list \<Rightarrow> heap \<Rightarrow> heap" where
  "populated Constructor props vs h0 = h0 @ [JSObject Constructor (assigned props vs [])]"

text \<open>
  How a stage's result settles, whether it came as a value, as a promise or as a throw,
  and one step of the pipeline's \<^verbatim>\<open>reduce\<close> callback.
\<close>

fun settled :: "error + 'a value_or_promise \<Rightarrow> error + 'a" where
  "settled (Inl e) = Inl e"
| "settled (Inr r) = Promise_resolve r"

definition outcome :: "error + (error + 'a) \<Rightarrow> error + 'a" where
  "outcome r = (case r of Inl e \<Rightarrow> Inl e | Inr p \<Rightarrow> p)"

definition chain_step :: "('a list \<Rightarrow> filename \<Rightarrow> error + 'a list value_or_promise) \<Rightarrow> filename
    \<Rightarrow> 'a list value_or_promise \<Rightarrow> error + 'a list value_or_promise" where
  "chain_step stage filename prev =
     (case prev of
        Promise p \<Rightarrow> Inr (Promise (then_promise p (\<lambda>data. stage data filename)))
      | Plain data \<Rightarrow> stage data filename)"

text \<open>
  A read callback on a stream cut after \<open>k\<close> items: it behaves as the callback on the
  whole stream while that one stays within the first \<open>k\<close> items, and raises
  \<open>UnexpectedEndOfStream\<close> where that one goes beyond them.
\<close>

definition cut_at :: "nat \<Rightarrow> (dec_state \<Rightarrow> error + val \<times> dec_state)
    \<Rightarrow> (dec_state \<Rightarrow> error + val \<times> dec_state) \<Rightarrow> bool" where
  "cut_at k rd rd' \<longleftrightarrow>
     (\<forall>st v st'. rd st = Inr (v, st') \<longrightarrow>
        currentDataPos st < currentDataPos st' \<and>
        rd' st = (if currentDataPos st' \<le> k then Inr (v, st') else Inl UnexpectedEndOfStream))"

text \<open>
  Structural equality of object graphs. Decoding builds new objects, so an original
  reference corresponds to a decoded one through a map \<open>f\<close> of addresses: two values are
  related when they are equal, or references related by \<open>f\<close>; two objects when they have
  the same constructor and related values under the same property names. A graph
  isomorphism is such an \<open>f\<close> that is injective and relates the objects it maps. That
  \<open>f\<close> is a function says that two references to one object decode to two references
  to one object; that it is injective, that distinct objects stay distinct.
\<close>

fun vrel :: "(addr \<rightharpoonup> addr) \<Rightarrow> val \<Rightarrow> val \<Rightarrow> bool" where
  "vrel f (JRef a) v' = (case f a of None \<Rightarrow> False | Some a' \<Rightarrow> v' = JRef a')"
| "vrel f v v' = (v' = v)"

definition orel :: "(addr \<rightharpoonup> addr) \<Rightarrow> jsobject \<Rightarrow> jsobject \<Rightarrow> bool" where
  "orel f obj obj' \<longleftrightarrow>
     constructor_of obj' = constructor_of obj \<and>
     (\<forall>p. rel_option (vrel f) (map_of (properties obj) p) (map_of (properties obj') p))"

definition graph_iso :: "(addr \<rightharpoonup> addr) \<Rightarrow> heap \<Rightarrow> heap \<Rightarrow> bool" where
  "graph_iso f h h' \<longleftrightarrow>
     inj_on f (dom f) \<and>
     (\<forall>a a'. f a = Some a' \<longrightarrow> a < length h \<and> a' < length h' \<and> orel f (h ! a) (h' ! a'))"

text \<open>
  The values a capability's \<^verbatim>\<open>serialize\<close> hands to \<^verbatim>\<open>write\<close> for an object, and the
  reader that is left when a capability's \<^verbatim>\<open>deserialize\<close> has read given values.
\<close>

fun written :: "serializer \<Rightarrow> heap \<Rightarrow> val \<Rightarrow> error + val list" where
  "written (PropertiesSerializer Constructor props onRestored) h obj =
     Inr (map (get_prop h obj) props)"
| "written (CustomSerializer writes rdr) h obj = writes h obj"

text \<open>
  The values written for the object at an address, and the stack of objects whose
  fields are being encoded when an item is reached, innermost first: the item is among
  the values written for the first, which is among those written for the second, and
  so on.
\<close>

definition children :: "registry \<Rightarrow> heap \<Rightarrow> addr \<Rightarrow> val list" where
  "children reg h a =
     (case getSerializerFor reg h (JRef a) of
        Inl e \<Rightarrow> []
      | Inr cfg \<Rightarrow> (case written (serializer cfg) h (JRef a) of Inl e \<Rightarrow> [] | Inr vs \<Rightarrow> vs))"

fun in_progress :: "registry \<Rightarrow> heap \<Rightarrow> addr list \<Rightarrow> val \<Rightarrow> bool" where
  "in_progress reg h [] v = True"
| "in_progress reg h (x # xs) v \<longleftrightarrow> v \<in> set (children reg h x) \<and> in_progress reg h xs (JRef x)"

fun feed :: "reader \<Rightarrow> val list \<Rightarrow> reader option" where
  "feed rdr [] = Some rdr"
| "feed (Read k) (v # vs) = feed (k v) vs"
| "feed (Construct build) (v # vs) = None"

text \<open>
  A capability restores an object from the values it wrote when: it is a field-list
  capability of the object's constructor, without hook, that lists exactly the
  object's properties; or its \<^verbatim>\<open>deserialize\<close>, for any values that correspond to the
  written ones under a renaming of addresses, reads exactly those, and then constructs
  one new object, at the next free address, that is the original under that renaming.
\<close>

definition rebuilds :: "(addr \<rightharpoonup> addr) \<Rightarrow> jsobject \<Rightarrow> reader \<Rightarrow> val list \<Rightarrow> bool" where
  "rebuilds f obj rdr vs' \<longleftrightarrow>
     (\<exists>build. feed rdr vs' = Some (Construct build) \<and>
        (\<forall>h0. \<exists>obj'. build h0 = Inr (JRef (length h0), h0 @ [obj']) \<and> orel f obj obj'))"

fun faithful :: "serializer \<Rightarrow> jsobject \<Rightarrow> val list \<Rightarrow> bool" where
  "faithful (PropertiesSerializer Constructor props onRestored) obj vs \<longleftrightarrow>
     Constructor = constructor_of obj \<and> onRestored = None \<and>
     set props = fst ` set (properties obj)"
| "faithful (CustomSerializer writes rdr) obj vs \<longleftrightarrow>
     (\<forall>f vs'. list_all2 (vrel f) vs vs' \<longrightarrow> rebuilds f obj rdr vs')"

text \<open>
  The graphs the round trip is stated for: the unfolding of the value ends within
  \<open>n\<close> levels (so no object is reachable from itself), no function occurs in it, and
  every object's constructor is registered with a capability that writes without
  failing and restores the object from what it wrote, under a request that is not a
  number and that \<^verbatim>\<open>decodeValue\<close> resolves to the same capability.
\<close>

primrec encodable :: "(string \<rightharpoonup> jsmodule) \<Rightarrow> registry \<Rightarrow> heap \<Rightarrow> nat \<Rightarrow> val \<Rightarrow> bool" where
  "encodable require reg h 0 = (\<lambda>v. False)"
| "encodable require reg h (Suc n) =
     (\<lambda>v. case v of
        JRef a \<Rightarrow>
          (case lookup h a of
             None \<Rightarrow> False
           | Some obj \<Rightarrow>
               (case serializers reg (constructor_of obj) of
                  None \<Rightarrow> False
                | Some cfg \<Rightarrow>
                    (case written (serializer cfg) h v of
                       Inl e \<Rightarrow> False
                     | Inr vs \<Rightarrow>
                         faithful (serializer cfg) obj vs \<and>
                         typeof (request cfg) \<noteq> ''number'' \<and>
                         find_serializer require reg (request cfg) (exportName cfg)
                           = Inr (serializer cfg) \<and>
                         list_all (encodable require reg h n) vs)))
      | JFun f \<Rightarrow> False
      | _ \<Rightarrow> True)"

text \<open>
  The relation between the encoder's state after some items and the decoder's state
  after the stream of the same items: equal position counters, the cursor at the end
  of what was emitted, the read-side table holding at each position the image of the
  value the write side gave that position, and the decoded heap isomorphic to the
  original on the objects registered so far.
\<close>

definition sim :: "heap \<Rightarrow> (addr \<rightharpoonup> addr) \<Rightarrow> enc_state \<Rightarrow> dec_state \<Rightarrow> bool" where
  "sim h f st rst \<longleftrightarrow>
     table_ok st \<and>
     currentPos' rst = currentPos st \<and> currentDataPos rst = length (result st) \<and>
     (\<forall>v r. referenceable st v = Some r \<longrightarrow>
        (\<exists>v'. referenceable' rst r = Some v' \<and> vrel f v v')) \<and>
     (\<forall>a. f a \<noteq> None \<longleftrightarrow> referenceable st (JRef a) \<noteq> None) \<and>
     graph_iso f h (heap rst)"

definition grows :: "(addr \<rightharpoonup> addr) \<Rightarrow> dec_state \<Rightarrow> (addr \<rightharpoonup> addr) \<Rightarrow> dec_state \<Rightarrow> bool" where
  "grows f rst f' rst' \<longleftrightarrow>
     f \<subseteq>\<^sub>m f' \<and> prefix (heap rst) (heap rst') \<and>
     (\<forall>a b. f' a = Some b \<longrightarrow> f a = Some b \<or> length (heap rst) \<le> b)"

definition assigned_from ::
  "heap \<Rightarrow> (addr \<rightharpoonup> addr) \<Rightarrow> val \<Rightarrow> string list \<Rightarrow> jsobject \<Rightarrow> jsobject \<Rightarrow> bool" where
  "assigned_from h f obj ps before after \<longleftrightarrow>
     constructor_of after = constructor_of before \<and>
     (\<forall>q. if q \<in> set ps
          then (\<exists>v'. map_of (properties after) q = Some v' \<and> vrel f (get_prop h obj q) v')
          else map_of (properties after) q = map_of (properties before) q)"

text \<open>
  Concrete instances: a capability for \<^verbatim>\<open>Object\<close> and \<^verbatim>\<open>Array\<close>, a class \<^verbatim>\<open>Foo\<close> registered
  with the field list \<^verbatim>\<open>["a", "b"]\<close> under the module \<^verbatim>\<open>foo.js\<close>, a heap in which one object
  is referenced twice and holds a string and an empty plain object, its encoding and the final states of encoding and decoding it, a
  heap with an object that refers to itself, one with a property the field list omits,
  and a two-stage pipeline whose second stage answers with a promise.
\<close>

definition example_plain :: serializer where
  "example_plain =
     CustomSerializer (\<lambda>h obj. Inr [])
       (Construct (\<lambda>h. Inr (JRef (length h), h @ [JSObject Object []])))"

definition example_registry :: registry where
  "example_registry =
     snd (register_PropertiesSerializer (Class ''Foo'') (JStr ''foo.js'') [''a'', ''b''] None
            (initial_registry example_plain))"

definition example_require :: "string \<rightharpoonup> jsmodule" where
  "example_require = [''foo.js'' \<mapsto> Module (Some (Class ''Foo'')) Map.empty]"

definition example_heap :: heap where
  "example_heap =
     [JSObject (Class ''Foo'') [(''a'', JRef 1), (''b'', JRef 1)],
      JSObject (Class ''Foo'') [(''a'', JStr ''x''), (''b'', JRef 2)],
      JSObject Object []]"

definition example_stream :: "val list" where
  "example_stream =
     [JNull, JStr ''foo.js'', JNull,
        JNull, JStr ''foo.js'', JNull, JStr ''x'', JNull, JNull, JNull,
        JNull, JNum (- 1)]"

definition example_enc_final :: enc_state where
  "example_enc_final =
     \<lparr>result = example_stream, currentPos = 4,
      referenceable = [JStr ''x'' \<mapsto> 0, JRef 2 \<mapsto> 1, JRef 1 \<mapsto> 2, JRef 0 \<mapsto> 3]\<rparr>"

definition example_dec_final :: dec_state where
  "example_dec_final =
     \<lparr>currentDataPos = 12, currentPos' = 4,
      referenceable' = [0 \<mapsto> JStr ''x'', 1 \<mapsto> JRef 2, 2 \<mapsto> JRef 1, 3 \<mapsto> JRef 0],
      heap = example_heap\<rparr>"

definition cyclic_heap :: heap where
  "cyclic_heap = [JSObject (Class ''Foo'') [(''a'', JRef 0), (''b'', JNull)]]"

definition unlisted_heap :: heap where
  "unlisted_heap = [JSObject (Class ''Foo'') [(''a'', JNum 1), (''b'', JNum 2), (''c'', JNum 3)]]"

definition example_stages :: "nat middleware list" where
  "example_stages =
     [\<lparr>mw_serialize = (\<lambda>data f. Inr (Plain (map Suc data))),
       mw_deserialize = (\<lambda>data f. Inr (Plain (map (\<lambda>n. n - 1) data)))\<rparr>,
      \<lparr>mw_serialize = (\<lambda>data f. Inr (Promise (Inr (data @ [length f])))),
       mw_deserialize = (\<lambda>data f. Inr (Promise (Inr [6, 5])))\<rparr>]"

section \<open>Properties of the registry\<close>

text \<open>
  Claim C7. Registering a global capability under a name that already has a global entry
  ends in \<open>DuplicateGlobalName\<close> at the call itself and the entry under that name stays
  as it was; under a fresh global name, or with a request that is not the global marker,
  the call succeeds and the per-type entry is the new one.
\<close>

theorem register_global_name:
  "(globalSerializers reg exportNm \<noteq> None \<longrightarrow>
      fst (register Constructor GLOBAL_SERIALIZER_REQUEST exportNm ser reg)
        = Inl (DuplicateGlobalName exportNm) \<and>
      globalSerializers (snd (register Constructor GLOBAL_SERIALIZER_REQUEST exportNm ser reg)) exportNm
        = globalSerializers reg exportNm) \<and>
   (globalSerializers reg exportNm = None \<longrightarrow>
      fst (register Constructor GLOBAL_SERIALIZER_REQUEST exportNm ser reg) = Inr () \<and>
      globalSerializers (snd (register Constructor GLOBAL_SERIALIZER_REQUEST exportNm ser reg)) exportNm
        = Some ser \<and>
      serializers (snd (register Constructor GLOBAL_SERIALIZER_REQUEST exportNm ser reg)) Constructor
        = Some \<lparr>request = GLOBAL_SERIALIZER_REQUEST, exportName = exportNm, serializer = ser\<rparr>) \<and>
   (req \<noteq> GLOBAL_SERIALIZER_REQUEST \<longrightarrow>
      fst (register Constructor req exportNm ser reg) = Inr () \<and>
      globalSerializers (snd (register Constructor req exportNm ser reg)) = globalSerializers reg \<and>
      serializers (snd (register Constructor req exportNm ser reg)) Constructor
        = Some \<lparr>request = req, exportName = exportNm, serializer = ser\<rparr>)"
  by (simp add: register_def Let_def)

theorem register_global_name_witness:
  "globalSerializers (initial_registry example_plain) JNull \<noteq> None \<and>
   fst (register (Class ''Foo'') GLOBAL_SERIALIZER_REQUEST JNull
          (PropertiesSerializer (Class ''Foo'') [''a''] None) (initial_registry example_plain))
     = Inl (DuplicateGlobalName JNull) \<and>
   globalSerializers (snd (register (Class ''Foo'') GLOBAL_SERIALIZER_REQUEST JNull
          (PropertiesSerializer (Class ''Foo'') [''a''] None) (initial_registry example_plain))) JNull
     = Some example_plain \<and>
   globalSerializers (initial_registry example_plain) (JStr ''Foo'') = None \<and>
   fst (register (Class ''Foo'') GLOBAL_SERIALIZER_REQUEST (JStr ''Foo'')
          (PropertiesSerializer (Class ''Foo'') [''a''] None) (initial_registry example_plain))
     = Inr () \<and>
   JStr ''foo.js'' \<noteq> GLOBAL_SERIALIZER_REQUEST \<and>
   fst (register (Class ''Foo'') (JStr ''foo.js'') JNull
          (PropertiesSerializer (Class ''Foo'') [''a''] None) (initial_registry example_plain))
     = Inr ()"
  using register_global_name [of "initial_registry example_plain" JNull "Class ''Foo''"
          "PropertiesSerializer (Class ''Foo'') [''a''] None" "JStr ''foo.js''"]
        register_global_name [of "initial_registry example_plain" "JStr ''Foo''" "Class ''Foo''"
          "PropertiesSerializer (Class ''Foo'') [''a''] None" "JStr ''foo.js''"]
  by (simp add: initial_registry_def GLOBAL_SERIALIZER_REQUEST_def)

text \<open>
  Claim C10. A call of \<^verbatim>\<open>register\<close> with the global marker and a name already in the
  global table throws before it mutates anything: both tables are as they were, so an
  entry of the per-type table for the same constructor is not overwritten.
\<close>

theorem register_atomic_on_failure:
  "req = GLOBAL_SERIALIZER_REQUEST \<Longrightarrow> globalSerializers reg exportNm \<noteq> None \<Longrightarrow>
     register Constructor req exportNm ser reg = (Inl (DuplicateGlobalName exportNm), reg) \<and>
     globalSerializers (snd (register Constructor req exportNm ser reg)) = globalSerializers reg \<and>
     serializers (snd (register Constructor req exportNm ser reg)) = serializers reg"
  by (simp add: register_def)

theorem register_atomic_on_failure_witness:
  "JNull = GLOBAL_SERIALIZER_REQUEST \<and>
   globalSerializers (initial_registry example_plain) JNull \<noteq> None \<and>
   register Object JNull JNull (PropertiesSerializer Object [''a''] None)
       (initial_registry example_plain)
     = (Inl (DuplicateGlobalName JNull), initial_registry example_plain) \<and>
   serializers (snd (register Object JNull JNull (PropertiesSerializer Object [''a''] None)
       (initial_registry example_plain))) Object
     = Some \<lparr>request = JNull, exportName = JNull, serializer = example_plain\<rparr>"
proof -
  have g: "JNull = GLOBAL_SERIALIZER_REQUEST" by (simp add: GLOBAL_SERIALIZER_REQUEST_def)
  have d: "globalSerializers (initial_registry example_plain) JNull \<noteq> None"
    by (simp add: initial_registry_def)
  show ?thesis
    using g d register_atomic_on_failure [OF g d, of Object "PropertiesSerializer Object [''a''] None"]
    by (simp add: initial_registry_def GLOBAL_SERIALIZER_REQUEST_def)
qed

section \<open>Properties of the field-list capability\<close>

lemma assigned_Cons [simp]:
  "assigned (p # ps) (v # vs) fs = assigned ps vs (AList.update p v fs)"
  by (simp add: assigned_def)

lemma assigned_Nil [simp]: "assigned [] vs fs = fs"
  by (simp add: assigned_def)

lemma map_of_assigned:
  "map_of (assigned props (map g props) fs) q = (if q \<in> set props then Some (g q) else map_of fs q)"
  by (induction props arbitrary: fs) (auto simp: update_conv)

lemma for_of_sink:
  "for_of (\<lambda>x s. Inr (s @ [g x])) xs acc = Inr (acc @ map g xs)"
  by (induction xs arbitrary: acc) auto

lemma for_of_map:
  "for_of (\<lambda>x. body (g x)) xs st = for_of body (map g xs) st"
  by (induction xs arbitrary: st) (auto split: sum.splits)

lemma assign_props_read:
  "length vs = length props \<Longrightarrow> currentDataPos st = length pre \<Longrightarrow> a < length (heap st) \<Longrightarrow>
   assign_props props (JRef a) (read (pre @ vs @ post)) st =
     Inr (st\<lparr>currentDataPos := length pre + length props,
             heap := (heap st)[a := JSObject (constructor_of (heap st ! a))
                                   (assigned props vs (properties (heap st ! a)))]\<rparr>)"
proof (induction props arbitrary: vs pre st)
  case Nil
  then show ?case by simp
next
  case (Cons p ps)
  then obtain v vs' where vs: "vs = v # vs'" by (cases vs) auto
  let ?st1 = "st\<lparr>currentDataPos := Suc (length pre),
       heap := set_prop (JRef a) p v (heap st)\<rparr>"
  have rd: "read (pre @ vs @ post) st = Inr (v, st\<lparr>currentDataPos := currentDataPos st + 1\<rparr>)"
    using Cons.prems vs by (simp add: read_def nth_append)
  have ih: "assign_props ps (JRef a) (read ((pre @ [v]) @ vs' @ post)) ?st1 =
     Inr (?st1\<lparr>currentDataPos := length (pre @ [v]) + length ps,
             heap := (heap ?st1)[a := JSObject (constructor_of (heap ?st1 ! a))
                                   (assigned ps vs' (properties (heap ?st1 ! a)))]\<rparr>)"
    using Cons.prems vs by (intro Cons.IH) auto
  show ?case using rd ih Cons.prems vs by simp
qed

text \<open>
  Claim C8. \<^verbatim>\<open>serialize\<close> hands the current value of each listed field to the sink, in
  list order. \<^verbatim>\<open>deserialize\<close> creates a fresh instance of the constructor, assigns the
  fields in list order from the values it reads, and then calls the hook, when there is
  one, once on the populated instance before it returns the instance. When the values
  read are the ones \<^verbatim>\<open>serialize\<close> wrote, every listed field of the populated instance has
  the value the original had.
\<close>

theorem field_list_capability:
  "PropertiesSerializer_serialize props h obj write st
     = for_of write (map (get_prop h obj) props) st \<and>
   PropertiesSerializer_serialize props h obj (\<lambda>v sink. Inr (sink @ [v])) []
     = Inr (map (get_prop h obj) props) \<and>
   (\<forall>p\<in>set props.
      get_prop (populated Constructor props (map (get_prop h obj) props) h0) (JRef (length h0)) p
        = get_prop h obj p) \<and>
   (currentDataPos rst = length pre \<and> length vs = length props \<longrightarrow>
      PropertiesSerializer_deserialize Constructor props onRestored (read (pre @ vs @ post)) rst =
        (case onRestored of
           None \<Rightarrow>
             Inr (JRef (length (heap rst)),
                  rst\<lparr>currentDataPos := length pre + length props,
                      heap := populated Constructor props vs (heap rst)\<rparr>)
         | Some hook \<Rightarrow>
             (case hook (JRef (length (heap rst))) (populated Constructor props vs (heap rst)) of
                Inl e \<Rightarrow> Inl e
              | Inr h' \<Rightarrow>
                  Inr (JRef (length (heap rst)),
                       rst\<lparr>currentDataPos := length pre + length props, heap := h'\<rparr>))))"
proof (intro conjI impI)
  show "PropertiesSerializer_serialize props h obj write st
      = for_of write (map (get_prop h obj) props) st"
    by (simp add: PropertiesSerializer_serialize_def for_of_map)
  show "PropertiesSerializer_serialize props h obj (\<lambda>v sink. Inr (sink @ [v])) []
      = Inr (map (get_prop h obj) props)"
    using for_of_sink[of "get_prop h obj" props "[]"]
    by (simp add: PropertiesSerializer_serialize_def)
  show "\<forall>p\<in>set props.
      get_prop (populated Constructor props (map (get_prop h obj) props) h0) (JRef (length h0)) p
        = get_prop h obj p"
    by (simp add: populated_def lookup_def map_of_assigned)
next
  assume c: "currentDataPos rst = length pre \<and> length vs = length props"
  let ?a = "length (heap rst)"
  let ?st0 = "rst\<lparr>heap := heap rst @ [JSObject Constructor []]\<rparr>"
  have ap: "assign_props props (JRef ?a) (read (pre @ vs @ post)) ?st0 =
     Inr (rst\<lparr>currentDataPos := length pre + length props,
             heap := populated Constructor props vs (heap rst)\<rparr>)"
    using assign_props_read[of vs props ?st0 pre ?a post] c by (simp add: populated_def)
  show "PropertiesSerializer_deserialize Constructor props onRestored (read (pre @ vs @ post)) rst =
        (case onRestored of
           None \<Rightarrow>
             Inr (JRef (length (heap rst)),
                  rst\<lparr>currentDataPos := length pre + length props,
                      heap := populated Constructor props vs (heap rst)\<rparr>)
         | Some hook \<Rightarrow>
             (case hook (JRef (length (heap rst))) (populated Constructor props vs (heap rst)) of
                Inl e \<Rightarrow> Inl e
              | Inr h' \<Rightarrow>
                  Inr (JRef (length (heap rst)),
                       rst\<lparr>currentDataPos := length pre + length props, heap := h'\<rparr>)))"
    using ap by (simp add: PropertiesSerializer_deserialize_def Let_def split: option.splits sum.splits)
qed

theorem field_list_capability_witness:
  "PropertiesSerializer_serialize [''a'', ''b'']
       [JSObject (Class ''Foo'') [(''a'', JNum 1), (''b'', JStr ''x'')]]
       (JRef 0) (\<lambda>v sink. Inr (sink @ [v])) []
     = Inr [JNum 1, JStr ''x''] \<and>
   get_prop (populated (Class ''Foo'') [''a'', ''b''] [JNum 1, JStr ''x''] []) (JRef 0) ''b''
     = JStr ''x'' \<and>
   currentDataPos \<lparr>currentDataPos = 0, currentPos' = 0, referenceable' = Map.empty, heap = []\<rparr>
     = length ([] :: val list) \<and>
   length [JNum 1, JStr ''x''] = length [''a'', ''b''] \<and>
   PropertiesSerializer_deserialize (Class ''Foo'') [''a'', ''b'']
       (Some (\<lambda>obj h. Inr (set_prop obj ''restored'' (JBool True) h)))
       (read [JNum 1, JStr ''x''])
       \<lparr>currentDataPos = 0, currentPos' = 0, referenceable' = Map.empty, heap = []\<rparr>
     = Inr (JRef 0,
            \<lparr>currentDataPos = 2, currentPos' = 0, referenceable' = Map.empty,
             heap = [JSObject (Class ''Foo'')
                       [(''a'', JNum 1), (''b'', JStr ''x''), (''restored'', JBool True)]]\<rparr>)"
  using field_list_capability [of "[''a'', ''b'']"
      "[JSObject (Class ''Foo'') [(''a'', JNum 1), (''b'', JStr ''x'')]]" "JRef 0"
      "\<lambda>v sink. Inr (sink @ [v])" "[]" "Class ''Foo''" "[]"
      "\<lparr>currentDataPos = 0, currentPos' = 0, referenceable' = Map.empty, heap = []\<rparr>" "[]"
      "[JNum 1, JStr ''x'']"
      "Some (\<lambda>obj h. Inr (set_prop obj ''restored'' (JBool True) h))" "[]"]
  by (simp add: lookup_def assigned_def populated_def)

section \<open>Properties of the pipeline runner\<close>

lemma reduce_rejected:
  "settled (reduce (\<lambda>last m. chain_step (sel m) filename last) ms (Promise (Inl e))) = Inl e"
  by (induction ms) (simp_all add: chain_step_def)

lemma reduce_chain:
  "settled (reduce (\<lambda>last m. chain_step (sel m) filename last) ms acc) =
     (case settled (Inr acc) of
        Inl e \<Rightarrow> Inl e
      | Inr d \<Rightarrow> reduce (\<lambda>data m. settled (sel m data filename)) ms d)"
proof (induction ms arbitrary: acc)
  case Nil
  then show ?case by (simp split: sum.splits)
next
  case (Cons m ms)
  show ?case
  proof (cases acc)
    case (Plain d)
    then show ?thesis using Cons.IH
      by (simp add: chain_step_def split: sum.splits)
  next
    case (Promise p)
    show ?thesis
    proof (cases p)
      case (Inl e)
      then show ?thesis using Promise reduce_rejected[of sel filename "m # ms" e] by simp
    next
      case (Inr d)
      then show ?thesis using Promise Cons.IH[of "Promise (then_promise (Inr d) (\<lambda>data. sel m data filename))"]
        by (simp add: chain_step_def split: sum.splits value_or_promise.splits)
    qed
  qed
qed

text \<open>
  Claim C9. \<^verbatim>\<open>serializeToFile\<close> starts from the one-element sequence holding the root
  object and folds the stages' \<^verbatim>\<open>serialize\<close> from left to right, each stage applied to
  what the stage before it settled to; \<^verbatim>\<open>deserializeFromFile\<close> folds the stages'
  \<^verbatim>\<open>deserialize\<close> over the reversed list from the empty sequence and returns the first
  element of the result.
\<close>

theorem pipeline_folds:
  "outcome (serializeToFile middlewares obj filename) =
     reduce (\<lambda>data m. settled (mw_serialize m data filename)) middlewares [obj] \<and>
   outcome (deserializeFromFile middlewares filename) =
     (case reduce (\<lambda>data m. settled (mw_deserialize m data filename)) (rev middlewares) [] of
        Inl e \<Rightarrow> Inl e
      | Inr array \<Rightarrow> Inr (case array of [] \<Rightarrow> None | x # xs \<Rightarrow> Some x))"
proof -
  have a: "\<And>sel ms acc. (case reduce (\<lambda>last m. chain_step (sel m) filename last) ms acc of
              Inl e \<Rightarrow> Inl e | Inr r \<Rightarrow> Promise_resolve r)
           = settled (reduce (\<lambda>last m. chain_step (sel m) filename last) ms acc)"
    by (simp split: sum.splits)
  have s: "outcome (serializeToFile middlewares obj filename) =
      settled (reduce (\<lambda>last m. chain_step (mw_serialize m) filename last) middlewares (Plain [obj]))"
    by (simp add: serializeToFile_def outcome_def chain_step_def split: sum.splits)
  have d: "outcome (deserializeFromFile middlewares filename) =
      (case settled (reduce (\<lambda>last m. chain_step (mw_deserialize m) filename last) (rev middlewares) (Plain [])) of
         Inl e \<Rightarrow> Inl e
       | Inr array \<Rightarrow> Inr (case array of [] \<Rightarrow> None | x # xs \<Rightarrow> Some x))"
    by (simp add: deserializeFromFile_def outcome_def chain_step_def split: sum.splits)
  show ?thesis unfolding s d by (simp add: reduce_chain)
qed

theorem pipeline_folds_witness:
  "serializeToFile example_stages 5 ''cache'' = Inr (Inr [6, 5]) \<and>
   deserializeFromFile example_stages ''cache'' = Inr (Inr (Some 5))"
  using pipeline_folds [of example_stages 5 "''cache''"]
  by (simp add: example_stages_def serializeToFile_def deserializeFromFile_def)

section \<open>The codec on single items\<close>

lemmas eval_defs = serialize_def deserialize_def decode_loop.simps read_def push_def
  addReferenceable_def addReferenceable'_def ESCAPE_def ESCAPE_ESCAPE_VALUE_def
  GLOBAL_SERIALIZER_REQUEST_def initial_registry_def getSerializerFor_def lookup_def
  find_serializer_def

text \<open>
\<^verbatim>\<open>process\<close> and \<^verbatim>\<open>decodeValue\<close> by the shape of the item.
\<close>

lemma process_hit:
  "referenceable st item = Some ref \<Longrightarrow>
   process reg h (Suc depth) item st = Inr (push [ESCAPE, JNum (ref - currentPos st)] st)"
  by simp

lemma process_object:
  "referenceable st (JRef a) = None \<Longrightarrow>
   process reg h (Suc depth) (JRef a) st =
     (case getSerializerFor reg h (JRef a) of
        Inl e \<Rightarrow> Inl e
      | Inr cfg \<Rightarrow>
          (case serializer_serialize (serializer cfg) h (JRef a) (process reg h depth)
                  (push [ESCAPE, request cfg, exportName cfg] st) of
             Inl e \<Rightarrow> Inl e
           | Inr st' \<Rightarrow> Inr (addReferenceable (JRef a) st')))"
  by simp

lemma process_string:
  "referenceable st (JStr s) = None \<Longrightarrow>
   process reg h (Suc depth) (JStr s) st = Inr (push [JStr s] (addReferenceable (JStr s) st))"
  by simp

lemma process_null:
  "referenceable st JNull = None \<Longrightarrow>
   process reg h (Suc depth) JNull st = Inr (push [ESCAPE, ESCAPE_ESCAPE_VALUE] st)"
  by (simp add: ESCAPE_def)

lemma process_plain:
  "referenceable st item = None \<Longrightarrow> item = JUndefined \<or> (\<exists>n. item = JNum n) \<or> (\<exists>b. item = JBool b) \<Longrightarrow>
   process reg h (Suc depth) item st = Inr (push [item] st)"
  by (auto simp: ESCAPE_def)

lemma decodeValue_reference:
  "currentDataPos rst + 1 < length data \<Longrightarrow> data ! currentDataPos rst = ESCAPE \<Longrightarrow>
   data ! (currentDataPos rst + 1) = JNum k \<Longrightarrow> k \<noteq> 1 \<Longrightarrow>
   decodeValue require reg context data (Suc depth) rst =
     Inr (case referenceable' rst (currentPos' rst + k) of None \<Rightarrow> JUndefined | Some v \<Rightarrow> v,
          rst\<lparr>currentDataPos := currentDataPos rst + 2\<rparr>)"
  by (simp add: read_def ESCAPE_def ESCAPE_ESCAPE_VALUE_def)

lemma decodeValue_escaped:
  "currentDataPos rst + 1 < length data \<Longrightarrow> data ! currentDataPos rst = ESCAPE \<Longrightarrow>
   data ! (currentDataPos rst + 1) = ESCAPE_ESCAPE_VALUE \<Longrightarrow>
   decodeValue require reg context data (Suc depth) rst =
     Inr (ESCAPE, rst\<lparr>currentDataPos := currentDataPos rst + 2\<rparr>)"
  by (simp add: read_def)

lemma decodeValue_string:
  "currentDataPos rst < length data \<Longrightarrow> data ! currentDataPos rst = JStr s \<Longrightarrow>
   decodeValue require reg context data (Suc depth) rst =
     Inr (JStr s, addReferenceable' (JStr s) (rst\<lparr>currentDataPos := currentDataPos rst + 1\<rparr>))"
  by (simp add: read_def ESCAPE_def)

lemma decodeValue_plain:
  "currentDataPos rst < length data \<Longrightarrow> data ! currentDataPos rst = item \<Longrightarrow>
   item = JUndefined \<or> (\<exists>n. item = JNum n) \<or> (\<exists>b. item = JBool b) \<Longrightarrow>
   decodeValue require reg context data (Suc depth) rst =
     Inr (item, rst\<lparr>currentDataPos := currentDataPos rst + 1\<rparr>)"
  by (auto simp: read_def ESCAPE_def)

lemma decodeValue_object:
  "currentDataPos rst + 2 < length data \<Longrightarrow> data ! currentDataPos rst = ESCAPE \<Longrightarrow>
   data ! (currentDataPos rst + 1) = req \<Longrightarrow> typeof req \<noteq> ''number'' \<Longrightarrow>
   data ! (currentDataPos rst + 2) = exportNm \<Longrightarrow>
   find_serializer require reg req exportNm = Inr ser \<Longrightarrow>
   decodeValue require reg context data (Suc depth) rst =
     (case serializer_deserialize ser (decodeValue require reg context data depth)
             (rst\<lparr>currentDataPos := currentDataPos rst + 3\<rparr>) of
        Inl e \<Rightarrow> Inl e
      | Inr (obj, st4) \<Rightarrow> Inr (obj, addReferenceable' obj st4))"
  by (auto simp: read_def ESCAPE_def ESCAPE_ESCAPE_VALUE_def numeral_3_eq_3)

text \<open>
  Claim C2, as the specification states it, asks for an error when a back-reference
  does not resolve. \<^verbatim>\<open>referenceable.get\<close> returns \<^verbatim>\<open>undefined\<close> on a miss and nothing
  checks it: the stream \<^verbatim>\<open>[ESCAPE, -1]\<close> decodes to \<^verbatim>\<open>[undefined]\<close>.
\<close>

theorem unresolved_reference_counterexample:
  "deserialize Map.empty (initial_registry example_plain) ''cache'' [] (Suc 0) [ESCAPE, JNum (- 1)]
     = Inr ([JUndefined], [])"
  by (simp add: eval_defs)

text \<open>
  Claim C2, amended. When the escape sentinel is followed by a number other than 1,
  \<^verbatim>\<open>decodeValue\<close> raises nothing: it returns the table entry at the current position
  plus the offset, or \<^verbatim>\<open>undefined\<close> when the table has none there, moves the cursor
  past the two items and leaves the table as it is.
\<close>

theorem unresolved_reference_undefined:
  "currentDataPos st + 1 < length data \<Longrightarrow> data ! currentDataPos st = ESCAPE \<Longrightarrow>
   data ! (currentDataPos st + 1) = JNum k \<Longrightarrow> k \<noteq> 1 \<Longrightarrow>
   decodeValue require reg context data (Suc depth) st =
     Inr (case referenceable' st (currentPos' st + k) of None \<Rightarrow> JUndefined | Some v \<Rightarrow> v,
          st\<lparr>currentDataPos := currentDataPos st + 2\<rparr>)"
  by (simp add: read_def ESCAPE_def ESCAPE_ESCAPE_VALUE_def)

theorem unresolved_reference_undefined_witness:
  "decodeValue Map.empty (initial_registry example_plain) ''cache'' [ESCAPE, JNum (- 3)] (Suc 0)
       \<lparr>currentDataPos = 0, currentPos' = 0, referenceable' = Map.empty, heap = []\<rparr>
     = Inr (JUndefined,
            \<lparr>currentDataPos = 2, currentPos' = 0, referenceable' = Map.empty, heap = []\<rparr>)"
  using unresolved_reference_undefined [of
      "\<lparr>currentDataPos = 0, currentPos' = 0, referenceable' = Map.empty, heap = []\<rparr>"
      "[ESCAPE, JNum (- 3)]" "- 3" Map.empty "initial_registry example_plain" "''cache''" 0]
  by simp

text \<open>
  Claim C3 at a byte-buffer. A \<^verbatim>\<open>Buffer\<close> is an object, so \<^verbatim>\<open>process\<close> takes the
  branch \<^verbatim>\<open>typeof item === "object"\<close> before it reaches \<^verbatim>\<open>Buffer.isBuffer(item)\<close>: with
  the tables as the module sets them up, encoding a buffer throws.
\<close>

theorem buffer_takes_object_branch:
  "serialize (initial_registry example_plain) [JSObject Buffer []] (Suc 0) [JRef 0]
     = Inl (NoSerializerRegistered Buffer)"
  by (simp add: eval_defs)

text \<open>
For strings the claim holds: the second occurrence is a two-item back-reference.
\<close>

lemma string_dedup:
  "serialize reg h (Suc depth) [JStr s, JStr s] = Inr [JStr s, ESCAPE, JNum (- 1)] \<and>
   deserialize require reg context h0 (Suc depth) [JStr s, ESCAPE, JNum (- 1)] = Inr ([JStr s, JStr s], h0)"
  by (simp add: eval_defs)

section \<open>Invariants of the write side\<close>

lemma enc_extends_refl: "enc_extends st st"
  by (simp add: enc_extends_def)

lemma enc_extends_trans: "enc_extends a b \<Longrightarrow> enc_extends b c \<Longrightarrow> enc_extends a c"
  by (auto simp: enc_extends_def)

lemma for_of_rel:
  assumes "\<And>s. R s s" and "\<And>a b c. R a b \<Longrightarrow> R b c \<Longrightarrow> R a c"
    and "\<And>x s s'. body x s = Inr s' \<Longrightarrow> R s s'"
  shows "for_of body xs st = Inr st' \<Longrightarrow> R st st'"
proof (induction xs arbitrary: st)
  case Nil
  then show ?case using assms(1) by simp
next
  case (Cons x xs)
  then show ?case using assms(2,3) by (fastforce split: sum.splits)
qed

lemma enc_extends_push: "enc_extends st (push items st)"
  by (simp add: enc_extends_def push_def table_ok_def)

lemma enc_extends_addReferenceable:
  "typeof item = ''string'' \<or> (typeof item = ''object'' \<and> item \<noteq> JNull) \<Longrightarrow>
   enc_extends st (addReferenceable item st)"
  by (fastforce simp: enc_extends_def addReferenceable_def table_ok_def)

lemma serializer_serialize_extends:
  assumes "\<And>x s s'. write x s = Inr s' \<Longrightarrow> enc_extends s s'"
    and "serializer_serialize ser h obj write st = Inr st'"
  shows "enc_extends st st'"
proof (cases ser)
  case (PropertiesSerializer C props hook)
  have "for_of (\<lambda>prop. write (get_prop h obj prop)) props st = Inr st'"
    using assms(2) PropertiesSerializer by (simp add: PropertiesSerializer_serialize_def)
  then show ?thesis
    by (rule for_of_rel[where R = enc_extends, rotated -1])
      (auto intro: enc_extends_refl enc_extends_trans assms(1))
next
  case (CustomSerializer w r)
  then obtain vs where "for_of write vs st = Inr st'"
    using assms(2) by (auto split: sum.splits)
  then show ?thesis
    by (rule for_of_rel[where R = enc_extends, rotated -1])
      (auto intro: enc_extends_refl enc_extends_trans assms(1))
qed

lemma process_extends:
  "process reg h depth item st = Inr st' \<Longrightarrow> enc_extends st st'"
proof (induction depth arbitrary: item st st')
  case 0
  then show ?case by simp
next
  case (Suc depth)
  show ?case
  proof (cases "referenceable st item")
    case (Some ref)
    then show ?thesis using Suc.prems by (auto simp: enc_extends_push)
  next
    case None
    show ?thesis
    proof (cases "typeof item = ''object'' \<and> item \<noteq> JNull")
      case True
      then obtain cfg :: config and st1 where
        ser: "serializer_serialize (serializer cfg) h item (process reg h depth)
                (push [ESCAPE, request cfg, exportName cfg] st) = Inr st1"
        and st': "st' = addReferenceable item st1"
        using Suc.prems None by (auto split: sum.splits)
      have "enc_extends (push [ESCAPE, request cfg, exportName cfg] st) st1"
        using serializer_serialize_extends[OF _ ser] Suc.IH by blast
      then show ?thesis
        using st' True enc_extends_push enc_extends_addReferenceable enc_extends_trans by blast
    next
      case False
      have str: "typeof item = ''string'' \<Longrightarrow> enc_extends st (push [item] (addReferenceable item st))"
        using enc_extends_push enc_extends_addReferenceable enc_extends_trans by blast
      have buf: "Buffer_isBuffer h item \<Longrightarrow> typeof item = ''object'' \<and> item \<noteq> JNull"
        by (cases item) auto
      show ?thesis using Suc.prems None False str buf
        by (auto simp: enc_extends_push split: if_splits)
    qed
  qed
qed

text \<open>
  Claim C5. In any state the encoder reaches (the table invariant holds at the start
  and after every \<^verbatim>\<open>process\<close>), \<^verbatim>\<open>process\<close> emits for the sentinel as
  data exactly the pair \<^verbatim>\<open>[ESCAPE, 1]\<close> and touches neither the table nor the position
  counter; \<^verbatim>\<open>decodeValue\<close> on that pair returns the sentinel and only moves the cursor.
  A back-reference, the control use that also puts a number after the sentinel, never
  has 1 there. So \<^verbatim>\<open>[ESCAPE]\<close> encodes to \<^verbatim>\<open>[ESCAPE, 1]\<close>, which decodes to \<^verbatim>\<open>[ESCAPE]\<close>.
\<close>

theorem escape_sentinel_as_data:
  "(table_ok st \<longrightarrow>
      process reg h (Suc depth) ESCAPE st
        = Inr (st\<lparr>result := result st @ [ESCAPE, ESCAPE_ESCAPE_VALUE]\<rparr>)) \<and>
   (currentDataPos rst + 1 < length data \<and> data ! currentDataPos rst = ESCAPE \<and>
    data ! (currentDataPos rst + 1) = ESCAPE_ESCAPE_VALUE \<longrightarrow>
      decodeValue require reg context data (Suc depth) rst
        = Inr (ESCAPE, rst\<lparr>currentDataPos := currentDataPos rst + 2\<rparr>)) \<and>
   (table_ok st \<and> referenceable st item = Some ref \<longrightarrow>
      process reg h (Suc depth) item st = Inr (push [ESCAPE, JNum (ref - currentPos st)] st) \<and>
      JNum (ref - currentPos st) \<noteq> ESCAPE_ESCAPE_VALUE) \<and>
   table_ok enc_init \<and>
   (table_ok st \<and> process reg h depth item st = Inr st' \<longrightarrow> table_ok st') \<and>
   serialize reg h (Suc depth) [ESCAPE] = Inr [ESCAPE, ESCAPE_ESCAPE_VALUE] \<and>
   deserialize require reg context h0 (Suc depth) [ESCAPE, ESCAPE_ESCAPE_VALUE]
     = Inr ([ESCAPE], h0)"
proof (intro conjI impI)
  assume "table_ok st"
  then have "referenceable st JNull = None"
    by (cases "referenceable st JNull") (fastforce simp: table_ok_def)+
  then show "process reg h (Suc depth) ESCAPE st
      = Inr (st\<lparr>result := result st @ [ESCAPE, ESCAPE_ESCAPE_VALUE]\<rparr>)"
    by (simp add: ESCAPE_def push_def)
next
  assume "currentDataPos rst + 1 < length data \<and> data ! currentDataPos rst = ESCAPE \<and>
    data ! (currentDataPos rst + 1) = ESCAPE_ESCAPE_VALUE"
  then show "decodeValue require reg context data (Suc depth) rst
      = Inr (ESCAPE, rst\<lparr>currentDataPos := currentDataPos rst + 2\<rparr>)"
    by (simp add: read_def)
next
  assume a: "table_ok st \<and> referenceable st item = Some ref"
  then show "process reg h (Suc depth) item st
      = Inr (push [ESCAPE, JNum (ref - currentPos st)] st)"
    by simp
  from a have "ref < currentPos st" by (auto simp: table_ok_def)
  then show "JNum (ref - currentPos st) \<noteq> ESCAPE_ESCAPE_VALUE"
    by (simp add: ESCAPE_ESCAPE_VALUE_def)
next
  show "table_ok enc_init" by (simp add: table_ok_def enc_init_def)
next
  assume "table_ok st \<and> process reg h depth item st = Inr st'"
  then show "table_ok st'" using process_extends by (auto simp: enc_extends_def)
next
  show "serialize reg h (Suc depth) [ESCAPE] = Inr [ESCAPE, ESCAPE_ESCAPE_VALUE]"
    by (simp add: eval_defs)
  show "deserialize require reg context h0 (Suc depth) [ESCAPE, ESCAPE_ESCAPE_VALUE]
      = Inr ([ESCAPE], h0)"
    by (simp add: eval_defs)
qed

theorem escape_sentinel_as_data_witness:
  "table_ok \<lparr>result = [JStr ''a''], currentPos = 1, referenceable = [JStr ''a'' \<mapsto> 0]\<rparr> \<and>
   process (initial_registry example_plain) [] (Suc 0) ESCAPE
       \<lparr>result = [JStr ''a''], currentPos = 1, referenceable = [JStr ''a'' \<mapsto> 0]\<rparr>
     = Inr \<lparr>result = [JStr ''a'', JNull, JNum 1], currentPos = 1,
            referenceable = [JStr ''a'' \<mapsto> 0]\<rparr> \<and>
   process (initial_registry example_plain) [] (Suc 0) (JStr ''a'')
       \<lparr>result = [JStr ''a''], currentPos = 1, referenceable = [JStr ''a'' \<mapsto> 0]\<rparr>
     = Inr \<lparr>result = [JStr ''a'', JNull, JNum (- 1)], currentPos = 1,
            referenceable = [JStr ''a'' \<mapsto> 0]\<rparr> \<and>
   decodeValue Map.empty (initial_registry example_plain) ''cache'' [JStr ''a'', JNull, JNum 1]
       (Suc 0) \<lparr>currentDataPos = 1, currentPos' = 1, referenceable' = [0 \<mapsto> JStr ''a''], heap = []\<rparr>
     = Inr (JNull,
            \<lparr>currentDataPos = 3, currentPos' = 1, referenceable' = [0 \<mapsto> JStr ''a''], heap = []\<rparr>)"
proof -
  let ?st = "\<lparr>result = [JStr ''a''], currentPos = 1, referenceable = [JStr ''a'' \<mapsto> 0]\<rparr>"
  let ?rst = "\<lparr>currentDataPos = 1, currentPos' = 1, referenceable' = [0 \<mapsto> JStr ''a''], heap = []\<rparr>"
  have t: "table_ok ?st" by (simp add: table_ok_def)
  show ?thesis
    using t escape_sentinel_as_data [of ?st "initial_registry example_plain" "[]" 0 ?rst
        "[JStr ''a'', JNull, JNum 1]" Map.empty "''cache''" "JStr ''a''" 0 ?st "[]"]
    by (simp add: ESCAPE_def ESCAPE_ESCAPE_VALUE_def push_def)
qed

section \<open>The worked example\<close>

lemmas example_defs = example_registry_def example_require_def example_heap_def
  example_stream_def example_plain_def register_PropertiesSerializer_def register_def
  resolve_def PropertiesSerializer_serialize_def PropertiesSerializer_deserialize_def

lemmas example_eval = eval_defs example_defs enc_init_def dec_init_def Let_def
  process.simps(2) decodeValue.simps(2) encodable.simps(2)

lemma example_serialize:
  "serialize example_registry example_heap (Suc (Suc (Suc 0))) [JRef 0] = Inr example_stream"
  by (simp add: eval_defs example_defs)

lemma example_deserialize:
  "deserialize example_require example_registry ''cache'' [] (Suc (Suc (Suc 0))) example_stream
     = Inr ([JRef 0], example_heap)"
  by (simp add: eval_defs example_defs Let_def)

lemma example_process:
  "process example_registry example_heap (Suc (Suc (Suc 0))) (JRef 0) enc_init
     = Inr example_enc_final"
  by (simp add: example_eval example_enc_final_def)

lemma example_decodeValue:
  "decodeValue example_require example_registry ''cache'' example_stream (Suc (Suc (Suc 0)))
       (dec_init [])
     = Inr (JRef 0, example_dec_final)"
  by (simp add: example_eval example_dec_final_def numeral_2_eq_2)

lemma example_encodable:
  "encodable example_require example_registry example_heap (Suc (Suc (Suc 0))) (JRef 0)"
  by (simp add: encodable.simps(2) eval_defs example_defs rebuilds_def orel_def)

section \<open>Truncated streams\<close>

lemma read_take:
  "read (take k data) st = (if currentDataPos st < k then read data st else Inl UnexpectedEndOfStream)"
  by (auto simp: read_def)

lemma assign_props_take:
  assumes "cut_at k rd rd'"
  shows "assign_props ps obj rd st = Inr st' \<Longrightarrow> currentDataPos st \<le> k \<Longrightarrow>
     currentDataPos st \<le> currentDataPos st' \<and>
     assign_props ps obj rd' st =
       (if currentDataPos st' \<le> k then Inr st' else Inl UnexpectedEndOfStream)"
proof (induction ps arbitrary: st)
  case Nil
  then show ?case by simp
next
  case (Cons p ps)
  from Cons.prems(1) obtain v st1 where
    rd: "rd st = Inr (v, st1)" and
    rest: "assign_props ps obj rd (st1\<lparr>heap := set_prop obj p v (heap st1)\<rparr>) = Inr st'"
    by (auto split: sum.splits)
  let ?st2 = "st1\<lparr>heap := set_prop obj p v (heap st1)\<rparr>"
  from assms rd have adv: "currentDataPos st < currentDataPos st1"
    and rd': "rd' st = (if currentDataPos st1 \<le> k then Inr (v, st1) else Inl UnexpectedEndOfStream)"
    by (auto simp: cut_at_def)
  have mono: "currentDataPos ?st2 \<le> currentDataPos st'"
    using assign_props_cursor[of rd ps obj ?st2 st'] assms rest by (auto simp: cut_at_def)
  show ?case
  proof (cases "currentDataPos st1 \<le> k")
    case True
    then show ?thesis using Cons.IH[OF rest] rd' adv by auto
  next
    case False
    then show ?thesis using rd' adv mono by auto
  qed
qed

lemma run_reader_take:
  assumes "cut_at k rd rd'"
  shows "run_reader rd rdr st = Inr (v, st') \<Longrightarrow> currentDataPos st \<le> k \<Longrightarrow>
     currentDataPos st \<le> currentDataPos st' \<and>
     run_reader rd' rdr st =
       (if currentDataPos st' \<le> k then Inr (v, st') else Inl UnexpectedEndOfStream)"
proof (induction rdr arbitrary: st)
  case (Construct b)
  then show ?case by (auto split: sum.splits)
next
  case (Read f)
  from Read.prems(1) obtain x st1 where
    rd: "rd st = Inr (x, st1)" and rest: "run_reader rd (f x) st1 = Inr (v, st')"
    by (auto split: sum.splits)
  from assms rd have adv: "currentDataPos st < currentDataPos st1"
    and rd': "rd' st = (if currentDataPos st1 \<le> k then Inr (x, st1) else Inl UnexpectedEndOfStream)"
    by (auto simp: cut_at_def)
  have mono: "currentDataPos st1 \<le> currentDataPos st'"
    using run_reader_cursor[of rd "f x" st1 v st'] assms rest by (auto simp: cut_at_def)
  show ?case
  proof (cases "currentDataPos st1 \<le> k")
    case True
    then show ?thesis using Read.IH[of "f x" st1] rest rd' adv by auto
  next
    case False
    then show ?thesis using rd' adv mono by auto
  qed
qed

lemma serializer_deserialize_take:
  assumes "cut_at k rd rd'" and "serializer_deserialize ser rd st = Inr (v, st')"
    and "currentDataPos st \<le> k"
  shows "currentDataPos st \<le> currentDataPos st' \<and>
     serializer_deserialize ser rd' st =
       (if currentDataPos st' \<le> k then Inr (v, st') else Inl UnexpectedEndOfStream)"
proof (cases ser)
  case (PropertiesSerializer C props hook)
  let ?st0 = "st\<lparr>heap := heap st @ [JSObject C []]\<rparr>"
  from assms(2) PropertiesSerializer obtain st1 where
    ap: "assign_props props (JRef (length (heap st))) rd ?st0 = Inr st1"
    and fin: "(case hook of None \<Rightarrow> Inr (JRef (length (heap st)), st1)
              | Some hk \<Rightarrow> (case hk (JRef (length (heap st))) (heap st1) of
                    Inl e \<Rightarrow> Inl e
                  | Inr h' \<Rightarrow> Inr (JRef (length (heap st)), st1\<lparr>heap := h'\<rparr>))) = Inr (v, st')"
    by (auto simp: PropertiesSerializer_deserialize_def Let_def split: sum.splits)
  have c: "currentDataPos st' = currentDataPos st1"
    using fin by (auto split: option.splits sum.splits)
  have "currentDataPos ?st0 \<le> currentDataPos st1 \<and>
     assign_props props (JRef (length (heap st))) rd' ?st0 =
       (if currentDataPos st1 \<le> k then Inr st1 else Inl UnexpectedEndOfStream)"
    using assign_props_take[OF assms(1) ap] assms(3) by simp
  then show ?thesis using PropertiesSerializer fin c
    by (auto simp: PropertiesSerializer_deserialize_def Let_def)
next
  case (CustomSerializer w r)
  then show ?thesis using assms run_reader_take[OF assms(1), of r st v st'] by simp
qed

lemma decodeValue_take:
  "cut_at k (decodeValue require reg context data depth)
            (decodeValue require reg context (take k data) depth)"
proof (induction depth)
  case 0
  then show ?case by (simp add: cut_at_def)
next
  case (Suc depth)
  let ?rd = "decodeValue require reg context data depth"
  let ?rd' = "decodeValue require reg context (take k data) depth"
  show ?case unfolding cut_at_def
  proof (intro allI impI)
    fix st v st'
    assume run: "decodeValue require reg context data (Suc depth) st = Inr (v, st')"
    have adv: "currentDataPos st < currentDataPos st'"
      using decodeValue_advances[OF run] .
    from run obtain item st1 where r1: "read data st = Inr (item, st1)"
      by (auto split: sum.splits)
    have c1: "currentDataPos st1 = Suc (currentDataPos st)"
      using read_advances[OF r1] by simp
    have "decodeValue require reg context (take k data) (Suc depth) st =
        (if currentDataPos st' \<le> k then Inr (v, st') else Inl UnexpectedEndOfStream)"
    proof (cases "currentDataPos st < k")
      case False
      then show ?thesis using adv by (simp add: read_take)
    next
      case k0: True
      show ?thesis
      proof (cases "item = ESCAPE")
        case False
        then show ?thesis using run r1 k0 c1
          by (auto simp: read_take addReferenceable'_def split: if_splits)
      next
        case esc: True
        from run r1 esc obtain nextItem st2 where r2: "read data st1 = Inr (nextItem, st2)"
          by (auto split: sum.splits)
        have c2: "currentDataPos st2 = Suc (Suc (currentDataPos st))"
          using read_advances[OF r2] c1 by simp
        show ?thesis
        proof (cases "currentDataPos st1 < k")
          case False
          moreover have "currentDataPos st2 \<le> currentDataPos st'"
          proof -
            have "currentDataPos st' = currentDataPos st2 \<or> currentDataPos st2 < currentDataPos st'"
              using run r1 r2 esc
              by (auto simp: addReferenceable'_def split: if_splits sum.splits
                  dest!: read_advances serializer_deserialize_cursor[rotated] decodeValue_advances)
            then show ?thesis by auto
          qed
          ultimately show ?thesis using r1 k0 esc c1 c2 by (simp add: read_take)
        next
          case k1: True
          show ?thesis
          proof (cases "nextItem = ESCAPE_ESCAPE_VALUE \<or> typeof nextItem = ''number''")
            case True
            then show ?thesis using run r1 r2 esc k0 k1 c1 c2
              by (auto simp: read_take split: if_splits)
          next
            case obj: False
            from run r1 r2 esc obj obtain exportNm st3 ser ob st4 where
              r3: "read data st2 = Inr (exportNm, st3)"
              and fs: "find_serializer require reg nextItem exportNm = Inr ser"
              and ds: "serializer_deserialize ser ?rd st3 = Inr (ob, st4)"
              and fin: "v = ob" "st' = addReferenceable' ob st4"
              by (auto split: sum.splits)
            have c3: "currentDataPos st3 = Suc (Suc (Suc (currentDataPos st)))"
              using read_advances[OF r3] c2 by simp
            have c4: "currentDataPos st' = currentDataPos st4"
              using fin by (simp add: addReferenceable'_def)
            show ?thesis
            proof (cases "currentDataPos st2 < k")
              case False
              moreover have "currentDataPos st3 \<le> currentDataPos st4"
                using serializer_deserialize_cursor[OF _ ds] decodeValue_advances by blast
              ultimately show ?thesis using r1 r2 esc obj k0 k1 c1 c2 c3 c4
                by (simp add: read_take)
            next
              case k2: True
              have "currentDataPos st3 \<le> k" using k2 c2 c3 by simp
              from serializer_deserialize_take[OF Suc.IH ds this]
              show ?thesis using r1 r2 r3 fs fin esc obj k0 k1 k2 c4
                by (simp add: read_take)
            qed
          qed
        qed
      qed
    qed
    then show "currentDataPos st < currentDataPos st' \<and>
        decodeValue require reg context (take k data) (Suc depth) st =
        (if currentDataPos st' \<le> k then Inr (v, st') else Inl UnexpectedEndOfStream)"
      using adv by simp
  qed
qed

lemma decode_loop_extends:
  "decode_loop require reg context data depth res st = Inr (vs, stf) \<Longrightarrow> \<exists>more. vs = res @ more"
proof (induction require reg "context" data depth res st rule: decode_loop.induct)
  case (1 require reg ctxt data depth res st)
  show ?case
  proof (cases "currentDataPos st < length data")
    case True
    then obtain v st1 where dv: "decodeValue require reg ctxt data depth st = Inr (v, st1)"
      and rest: "decode_loop require reg ctxt data depth (res @ [v]) st1 = Inr (vs, stf)"
      using "1.prems" by (subst (asm) decode_loop.simps) (auto split: sum.splits)
    from "1.IH"[OF True dv refl rest] show ?thesis by auto
  next
    case False
    then show ?thesis using "1.prems" by (subst (asm) decode_loop.simps) auto
  qed
qed

lemma decode_loop_take:
  "decode_loop require reg context data depth res st = Inr (vs, stf) \<Longrightarrow>
   decode_loop require reg context (take k data) depth res st = Inl UnexpectedEndOfStream \<or>
   (\<exists>vs' st'. decode_loop require reg context (take k data) depth res st = Inr (vs', st') \<and>
      (\<exists>more. vs = vs' @ more))"
proof (induction require reg "context" data depth res st rule: decode_loop.induct)
  case (1 require reg ctxt data depth res st)
  show ?case
  proof (cases "currentDataPos st < length data")
    case True
    then obtain v st1 where dv: "decodeValue require reg ctxt data depth st = Inr (v, st1)"
      and rest: "decode_loop require reg ctxt data depth (res @ [v]) st1 = Inr (vs, stf)"
      using "1.prems" by (subst (asm) decode_loop.simps) (auto split: sum.splits)
    have cut: "decodeValue require reg ctxt (take k data) depth st =
        (if currentDataPos st1 \<le> k then Inr (v, st1) else Inl UnexpectedEndOfStream)"
      using decodeValue_take[of k require reg ctxt data depth] dv by (auto simp: cut_at_def)
    show ?thesis
    proof (cases "currentDataPos st < k")
      case False
      then have "decode_loop require reg ctxt (take k data) depth res st = Inr (res, st)"
        by (subst decode_loop.simps) simp
      moreover obtain more where "vs = res @ more"
        using decode_loop_extends[OF "1.prems"] by auto
      ultimately show ?thesis by auto
    next
      case k0: True
      show ?thesis
      proof (cases "currentDataPos st1 \<le> k")
        case True
        then have "decode_loop require reg ctxt (take k data) depth res st =
            decode_loop require reg ctxt (take k data) depth (res @ [v]) st1"
          using cut k0 \<open>currentDataPos st < length data\<close>
          by (subst decode_loop.simps) simp
        then show ?thesis using "1.IH"[OF \<open>currentDataPos st < length data\<close> dv refl rest] by simp
      next
        case False
        then have "decode_loop require reg ctxt (take k data) depth res st = Inl UnexpectedEndOfStream"
          using cut k0 \<open>currentDataPos st < length data\<close>
          by (subst decode_loop.simps) simp
        then show ?thesis by simp
      qed
    qed
  next
    case False
    then have "decode_loop require reg ctxt (take k data) depth res st = Inr (res, st)"
      by (subst decode_loop.simps) simp
    moreover have "vs = res"
      using False "1.prems" by (subst (asm) decode_loop.simps) simp
    ultimately show ?thesis by simp
  qed
qed

lemma decode_loop_single_take:
  assumes "decode_loop require reg context data depth [] st = Inr ([v], stf)"
    and "currentDataPos st < k" and "k < length data"
  shows "decode_loop require reg context (take k data) depth [] st = Inl UnexpectedEndOfStream"
proof -
  have lt: "currentDataPos st < length data" using assms(2,3) by simp
  then obtain v1 st1 where dv: "decodeValue require reg context data depth st = Inr (v1, st1)"
    and rest: "decode_loop require reg context data depth [v1] st1 = Inr ([v], stf)"
    using assms(1) by (subst (asm) decode_loop.simps) (auto split: sum.splits)
  have "\<not> currentDataPos st1 < length data"
  proof
    assume a: "currentDataPos st1 < length data"
    then obtain v2 st2 where
      "decode_loop require reg context data depth ([v1] @ [v2]) st2 = Inr ([v], stf)"
      using rest by (subst (asm) decode_loop.simps) (auto split: sum.splits)
    from decode_loop_extends[OF this] show False by simp
  qed
  then have "k < currentDataPos st1" using assms(3) by simp
  then have "decodeValue require reg context (take k data) depth st = Inl UnexpectedEndOfStream"
    using decodeValue_take[of k require reg "context" data depth] dv by (auto simp: cut_at_def)
  then show ?thesis using assms(2,3) by (subst decode_loop.simps) simp
qed

text \<open>
  Claim C6. A read at or past the end of the input raises \<open>UnexpectedEndOfStream\<close>, and
  an error of \<^verbatim>\<open>decodeValue\<close> is the result of the whole call. So when a stream decodes
  to some values, the stream cut after any number of items either raises
  \<open>UnexpectedEndOfStream\<close> or decodes to the first few of those values, the cut falling
  between two of them; and a stream that holds one value, cut inside it, raises.
\<close>

theorem truncated_stream:
  "(length data \<le> currentDataPos st \<longrightarrow> read data st = Inl UnexpectedEndOfStream) \<and>
   (currentDataPos st < length data \<and> decodeValue require reg ctx data depth st = Inl e \<longrightarrow>
      decode_loop require reg ctx data depth res st = Inl e) \<and>
   (deserialize require reg ctx h depth data = Inr (vs, h') \<longrightarrow>
      deserialize require reg ctx h depth (take k data) = Inl UnexpectedEndOfStream \<or>
      (\<exists>vs' h''. deserialize require reg ctx h depth (take k data) = Inr (vs', h'') \<and>
         (\<exists>more. vs = vs' @ more))) \<and>
   (deserialize require reg ctx h depth data = Inr ([v], h') \<and> 0 < k \<and> k < length data \<longrightarrow>
      deserialize require reg ctx h depth (take k data) = Inl UnexpectedEndOfStream)"
proof (intro conjI impI)
  assume "length data \<le> currentDataPos st"
  then show "read data st = Inl UnexpectedEndOfStream" by (simp add: read_def)
next
  assume "currentDataPos st < length data \<and> decodeValue require reg ctx data depth st = Inl e"
  then show "decode_loop require reg ctx data depth res st = Inl e"
    by (subst decode_loop.simps) simp
next
  let ?st0 = "\<lparr>currentDataPos = 0, currentPos' = 0, referenceable' = Map.empty, heap = h\<rparr>"
  assume "deserialize require reg ctx h depth data = Inr (vs, h')"
  then obtain stf where "decode_loop require reg ctx data depth [] ?st0 = Inr (vs, stf)"
    by (auto simp: deserialize_def split: sum.splits)
  from decode_loop_take[OF this, of k]
  show "deserialize require reg ctx h depth (take k data) = Inl UnexpectedEndOfStream \<or>
      (\<exists>vs' h''. deserialize require reg ctx h depth (take k data) = Inr (vs', h'') \<and>
         (\<exists>more. vs = vs' @ more))"
    by (auto simp: deserialize_def)
next
  let ?st0 = "\<lparr>currentDataPos = 0, currentPos' = 0, referenceable' = Map.empty, heap = h\<rparr>"
  assume a: "deserialize require reg ctx h depth data = Inr ([v], h') \<and> 0 < k \<and> k < length data"
  then obtain stf where "decode_loop require reg ctx data depth [] ?st0 = Inr ([v], stf)"
    by (auto simp: deserialize_def split: sum.splits)
  from decode_loop_single_take[OF this, of k] a
  show "deserialize require reg ctx h depth (take k data) = Inl UnexpectedEndOfStream"
    by (simp add: deserialize_def)
qed

theorem truncated_stream_witness:
  "length example_stream \<le> currentDataPos example_dec_final \<and>
   read example_stream example_dec_final = Inl UnexpectedEndOfStream \<and>
   deserialize example_require example_registry ''cache'' [] (Suc (Suc (Suc 0))) example_stream
     = Inr ([JRef 0], heap example_dec_final) \<and>
   (0::nat) < 5 \<and> 5 < length example_stream \<and>
   deserialize example_require example_registry ''cache'' [] (Suc (Suc (Suc 0)))
       (take 5 example_stream)
     = Inl UnexpectedEndOfStream \<and>
   currentDataPos (dec_init []) < length (take 5 example_stream) \<and>
   decodeValue example_require example_registry ''cache'' (take 5 example_stream)
       (Suc (Suc (Suc 0))) (dec_init []) = Inl UnexpectedEndOfStream \<and>
   decode_loop example_require example_registry ''cache'' (take 5 example_stream)
       (Suc (Suc (Suc 0))) [] (dec_init []) = Inl UnexpectedEndOfStream"
proof -
  note T1 = truncated_stream [where data = example_stream and st = example_dec_final
      and require = example_require and reg = example_registry and ctx = "''cache''"
      and h = "[]" and depth = "Suc (Suc (Suc 0))" and vs = "[JRef 0]"
      and h' = "heap example_dec_final" and k = 5 and v = "JRef 0"]
  note T2 = truncated_stream [where data = "take 5 example_stream" and st = "dec_init []"
      and require = example_require and reg = example_registry and ctx = "''cache''"
      and depth = "Suc (Suc (Suc 0))" and e = UnexpectedEndOfStream and res = "[]"]
  have h1: "length example_stream \<le> currentDataPos example_dec_final"
    by (simp add: example_stream_def example_dec_final_def)
  from T1 h1 have c1: "read example_stream example_dec_final = Inl UnexpectedEndOfStream"
    by blast
  have d: "deserialize example_require example_registry ''cache'' [] (Suc (Suc (Suc 0)))
      example_stream = Inr ([JRef 0], heap example_dec_final)"
    using example_deserialize by (simp add: example_dec_final_def)
  have k: "(0::nat) < 5 \<and> 5 < length example_stream" by (simp add: example_stream_def)
  from T1 d k have c4: "deserialize example_require example_registry ''cache'' []
      (Suc (Suc (Suc 0))) (take 5 example_stream) = Inl UnexpectedEndOfStream" by blast
  have h2: "currentDataPos (dec_init []) < length (take 5 example_stream) \<and>
      decodeValue example_require example_registry ''cache'' (take 5 example_stream)
        (Suc (Suc (Suc 0))) (dec_init []) = Inl UnexpectedEndOfStream"
    by (simp add: example_eval)
  from T2 h2 have c2: "decode_loop example_require example_registry ''cache''
      (take 5 example_stream) (Suc (Suc (Suc 0))) [] (dec_init []) = Inl UnexpectedEndOfStream"
    by blast
  show ?thesis using h1 c1 d k c4 h2 c2 by simp
qed

section \<open>Decoding what was encoded\<close>

lemma vrel_mono: "f \<subseteq>\<^sub>m f' \<Longrightarrow> vrel f v v' \<Longrightarrow> vrel f' v v'"
  by (cases v) (auto simp: map_le_def dom_def split: option.splits)

lemma orel_mono: "f \<subseteq>\<^sub>m f' \<Longrightarrow> orel f obj obj' \<Longrightarrow> orel f' obj obj'"
  unfolding orel_def
  by (metis (mono_tags, lifting) option.rel_mono_strong vrel_mono)

lemma serializer_serialize_written:
  "serializer_serialize ser h obj write st =
     (case written ser h obj of Inl e \<Rightarrow> Inl e | Inr vs \<Rightarrow> for_of write vs st)"
  by (cases ser) (simp_all add: PropertiesSerializer_serialize_def for_of_map)

lemma encodable_JRef:
  "encodable require reg h (Suc n) (JRef a) \<longleftrightarrow>
     (\<exists>obj cfg vs.
        lookup h a = Some obj \<and> serializers reg (constructor_of obj) = Some cfg \<and>
        written (serializer cfg) h (JRef a) = Inr vs \<and>
        faithful (serializer cfg) obj vs \<and>
        typeof (request cfg) \<noteq> ''number'' \<and>
        find_serializer require reg (request cfg) (exportName cfg) = Inr (serializer cfg) \<and>
        (\<forall>c\<in>set vs. encodable require reg h n c))"
  by (auto simp: list_all_iff split: option.splits sum.splits)

lemma encodable_other:
  "\<forall>a. v \<noteq> JRef a \<Longrightarrow> encodable require reg h (Suc n) v \<longleftrightarrow> (\<forall>g. v \<noteq> JFun g)"
  by (cases v) auto

declare encodable.simps(2) [simp del] process.simps(2) [simp del] decodeValue.simps(2) [simp del]

lemma encodable_mono: "encodable require reg h n v \<Longrightarrow> encodable require reg h (Suc n) v"
proof (induction n arbitrary: v)
  case 0
  then show ?case by simp
next
  case (Suc n)
  show ?case
  proof (cases "\<exists>a. v = JRef a")
    case True
    then show ?thesis using Suc.prems Suc.IH
      by (auto simp: encodable_JRef)
  next
    case False
    then show ?thesis using Suc.prems by (simp add: encodable_other)
  qed
qed

text \<open>
  While the fields of an object are encoded, the object and every object whose fields
  are being encoded further out are absent from the table, and stay so: an item that is
  one of them cannot be encoded at all, since encoding it enters the same fields again.
\<close>

lemma in_progress_member:
  "in_progress reg h xs v \<Longrightarrow> b \<in> set xs \<Longrightarrow>
   \<exists>c\<in>set (children reg h b). c = v \<or> c \<in> JRef ` set xs"
proof (induction xs arbitrary: v)
  case Nil
  then show ?case by simp
next
  case (Cons x xs)
  show ?case
  proof (cases "b = x")
    case True
    then show ?thesis using Cons.prems by auto
  next
    case False
    then have "b \<in> set xs" using Cons.prems by simp
    from Cons.IH[OF _ this, of "JRef x"] Cons.prems(1)
    show ?thesis by auto
  qed
qed

lemma for_of_in_progress:
  assumes step: "\<And>c s s'. c \<in> set ws \<Longrightarrow> \<forall>x\<in>set ys. referenceable s (JRef x) = None \<Longrightarrow>
      body c s = Inr s' \<Longrightarrow> (\<forall>x\<in>set ys. referenceable s' (JRef x) = None) \<and> c \<notin> JRef ` set ys"
  shows "for_of body ws s = Inr s1 \<Longrightarrow> \<forall>x\<in>set ys. referenceable s (JRef x) = None \<Longrightarrow>
     (\<forall>x\<in>set ys. referenceable s1 (JRef x) = None) \<and> (\<forall>c\<in>set ws. c \<notin> JRef ` set ys)"
  using step
proof (induction ws arbitrary: s)
  case Nil
  then show ?case by simp
next
  case (Cons w ws)
  from Cons.prems(1) obtain s2 where b: "body w s = Inr s2" and r: "for_of body ws s2 = Inr s1"
    by (auto split: sum.splits)
  from Cons.prems(3)[OF _ Cons.prems(2) b]
  have u2: "\<forall>x\<in>set ys. referenceable s2 (JRef x) = None" and w: "w \<notin> JRef ` set ys" by auto
  have "(\<forall>x\<in>set ys. referenceable s1 (JRef x) = None) \<and> (\<forall>c\<in>set ws. c \<notin> JRef ` set ys)"
  proof (rule Cons.IH[OF r u2])
    fix c s s'
    assume "c \<in> set ws" "\<forall>x\<in>set ys. referenceable s (JRef x) = None" "body c s = Inr s'"
    then show "(\<forall>x\<in>set ys. referenceable s' (JRef x) = None) \<and> c \<notin> JRef ` set ys"
      using Cons.prems(3)[of c s s'] by simp
  qed
  then show ?case using w by simp
qed

lemma process_in_progress:
  "in_progress reg h xs v \<Longrightarrow> \<forall>x\<in>set xs. referenceable st (JRef x) = None \<Longrightarrow>
   process reg h d v st = Inr st' \<Longrightarrow>
   (\<forall>x\<in>set xs. referenceable st' (JRef x) = None) \<and> v \<notin> JRef ` set xs"
proof (induction d arbitrary: xs v st st')
  case 0
  then show ?case by simp
next
  case (Suc d)
  show ?case
  proof (cases "referenceable st v")
    case (Some ref)
    then have "st' = push [ESCAPE, JNum (ref - currentPos st)] st"
      using Suc.prems(3) by (simp add: process_hit)
    then show ?thesis using Suc.prems(2) Some by (auto simp: push_def)
  next
    case None
    show ?thesis
    proof (cases "\<exists>b. v = JRef b")
      case True
      then obtain b where v: "v = JRef b" by blast
      from Suc.prems(3) None v obtain cfg :: config and st1 where
        g: "getSerializerFor reg h (JRef b) = Inr cfg"
        and run: "serializer_serialize (serializer cfg) h (JRef b) (process reg h d)
            (push [ESCAPE, request cfg, exportName cfg] st) = Inr st1"
        and st': "st' = addReferenceable (JRef b) st1"
        by (auto simp: process_object split: sum.splits)
      from run obtain vs where wr: "written (serializer cfg) h (JRef b) = Inr vs"
        and fo: "for_of (process reg h d) vs (push [ESCAPE, request cfg, exportName cfg] st) = Inr st1"
        by (auto simp: serializer_serialize_written split: sum.splits)
      have ch: "children reg h b = vs" using g wr by (simp add: children_def)
      have u0: "\<forall>x\<in>set (b # xs).
          referenceable (push [ESCAPE, request cfg, exportName cfg] st) (JRef x) = None"
        using Suc.prems(2) None v by (simp add: push_def)
      have "(\<forall>x\<in>set (b # xs). referenceable st1 (JRef x) = None) \<and>
          (\<forall>c\<in>set vs. c \<notin> JRef ` set (b # xs))"
      proof (rule for_of_in_progress[OF _ fo u0])
        fix c s s'
        assume c: "c \<in> set vs" and u: "\<forall>x\<in>set (b # xs). referenceable s (JRef x) = None"
          and p: "process reg h d c s = Inr s'"
        have "in_progress reg h (b # xs) c" using c ch Suc.prems(1) v by simp
        from Suc.IH[OF this u p]
        show "(\<forall>x\<in>set (b # xs). referenceable s' (JRef x) = None) \<and> c \<notin> JRef ` set (b # xs)" .
      qed
      then have u1: "\<forall>x\<in>set xs. referenceable st1 (JRef x) = None"
        and nc: "\<forall>c\<in>set vs. c \<notin> JRef ` set (b # xs)" by auto
      have nb: "b \<notin> set xs"
      proof
        assume "b \<in> set xs"
        from in_progress_member[OF Suc.prems(1) this] ch v
        obtain c where "c \<in> set vs" "c = JRef b \<or> c \<in> JRef ` set xs" by auto
        then show False using nc by auto
      qed
      show ?thesis using u1 nb st' v by (auto simp: addReferenceable_def)
    next
      case False
      then have "\<forall>x. referenceable st' (JRef x) = referenceable st (JRef x)"
        using Suc.prems(3) None
        by (cases v) (auto simp: process.simps(2) push_def addReferenceable_def
            split: if_splits)
      then show ?thesis using Suc.prems(2) False by auto
    qed
  qed
qed

lemma parent_stays_unregistered:
  assumes o: "lookup h a = Some obj" and sc: "serializers reg (constructor_of obj) = Some cfg"
    and wr: "written (serializer cfg) h (JRef a) = Inr vs"
    and run: "for_of (process reg h d) vs st0 = Inr st1"
    and r0: "referenceable st0 (JRef a) = None"
  shows "referenceable st1 (JRef a) = None"
proof -
  have ch: "children reg h a = vs" using o sc wr by (simp add: children_def getSerializerFor_def)
  have u0: "\<forall>x\<in>set [a]. referenceable st0 (JRef x) = None" using r0 by simp
  have "(\<forall>x\<in>set [a]. referenceable st1 (JRef x) = None) \<and> (\<forall>c\<in>set vs. c \<notin> JRef ` set [a])"
  proof (rule for_of_in_progress[OF _ run u0])
    fix c s s'
    assume c: "c \<in> set vs" and u: "\<forall>x\<in>set [a]. referenceable s (JRef x) = None"
      and p: "process reg h d c s = Inr s'"
    have "in_progress reg h [a] c" using c ch by simp
    from process_in_progress[OF this u p]
    show "(\<forall>x\<in>set [a]. referenceable s' (JRef x) = None) \<and> c \<notin> JRef ` set [a]" .
  qed
  then show ?thesis by simp
qed

text \<open>
  Each step of either side keeps the two states related.
\<close>

lemma grows_refl: "grows f rst f rst"
  by (simp add: grows_def)

lemma sim_push:
  "sim h f st rst \<Longrightarrow> n = length items \<Longrightarrow>
   sim h f (push items st) (rst\<lparr>currentDataPos := currentDataPos rst + n\<rparr>)"
  by (simp add: sim_def push_def table_ok_def)

lemma sim_string:
  assumes "sim h f st rst" 
  shows "sim h f (push [JStr s] (addReferenceable (JStr s) st))
           (addReferenceable' (JStr s) (rst\<lparr>currentDataPos := currentDataPos rst + 1\<rparr>))"
proof -
  have t: "table_ok st" using assms by (simp add: sim_def)
  have t': "table_ok (push [JStr s] (addReferenceable (JStr s) st))"
    using t enc_extends_addReferenceable[of "JStr s" st]
      enc_extends_push[of "addReferenceable (JStr s) st" "[JStr s]"]
    by (simp add: enc_extends_def)
  have lt: "\<And>v r. referenceable st v = Some r \<Longrightarrow> r \<noteq> currentPos st"
    using t by (fastforce simp: table_ok_def)
  show ?thesis
    unfolding sim_def
  proof (intro conjI allI impI)
    show "table_ok (push [JStr s] (addReferenceable (JStr s) st))" by (rule t')
  next
    fix v r
    assume "referenceable (push [JStr s] (addReferenceable (JStr s) st)) v = Some r"
    then show "\<exists>v'. referenceable' (addReferenceable' (JStr s)
          (rst\<lparr>currentDataPos := currentDataPos rst + 1\<rparr>)) r = Some v' \<and> vrel f v v'"
      using assms lt
      by (auto simp: sim_def push_def addReferenceable_def addReferenceable'_def split: if_splits)
  qed (use assms in \<open>auto simp: sim_def push_def addReferenceable_def addReferenceable'_def\<close>)
qed

lemma graph_iso_frame:
  "graph_iso f h H \<Longrightarrow> length H \<le> length H' \<Longrightarrow>
   (\<forall>a a'. f a = Some a' \<longrightarrow> H' ! a' = H ! a') \<Longrightarrow> graph_iso f h H'"
  by (fastforce simp: graph_iso_def)

lemma sim_heap:
  "sim h f st rst \<Longrightarrow> length (heap rst) \<le> length H' \<Longrightarrow>
   (\<forall>a a'. f a = Some a' \<longrightarrow> H' ! a' = heap rst ! a') \<Longrightarrow> sim h f st (rst\<lparr>heap := H'\<rparr>)"
  using graph_iso_frame[of f h "heap rst" H'] by (simp add: sim_def)

lemma graph_iso_add:
  assumes "graph_iso f h H" "f a = None" "a' \<notin> ran f" "a < length h" "a' < length H"
    and "orel (f(a \<mapsto> a')) (h ! a) (H ! a')"
  shows "graph_iso (f(a \<mapsto> a')) h H"
proof -
  have le: "f \<subseteq>\<^sub>m f(a \<mapsto> a')" using assms(2) by (simp add: map_le_def dom_def)
  have inj: "inj_on (f(a \<mapsto> a')) (dom (f(a \<mapsto> a')))"
    using assms(1,2,3) unfolding graph_iso_def inj_on_def ran_def dom_def
    by (auto split: if_splits)
  show ?thesis unfolding graph_iso_def
  proof (intro conjI allI impI)
    show "inj_on (f(a \<mapsto> a')) (dom (f(a \<mapsto> a')))" by (rule inj)
  next
    fix b b' assume "(f(a \<mapsto> a')) b = Some b'"
    then show "b < length h" "b' < length H" "orel (f(a \<mapsto> a')) (h ! b) (H ! b')"
      using assms orel_mono[OF le] by (auto simp: graph_iso_def split: if_splits)
  qed
qed

lemma sim_object:
  assumes "sim h f st rst" "referenceable st (JRef a) = None" "a' \<notin> ran f"
    "a < length h" "a' < length (heap rst)"
    "orel (f(a \<mapsto> a')) (h ! a) (heap rst ! a')"
  shows "sim h (f(a \<mapsto> a')) (addReferenceable (JRef a) st) (addReferenceable' (JRef a') rst)"
proof -
  have "\<forall>a. f a \<noteq> None \<longleftrightarrow> referenceable st (JRef a) \<noteq> None"
    using assms(1) unfolding sim_def by blast
  then have fa: "f a = None" using assms(2) by blast
  have le: "f \<subseteq>\<^sub>m f(a \<mapsto> a')" using fa by (simp add: map_le_def dom_def)
  have t: "table_ok st" using assms by (simp add: sim_def)
  have t': "table_ok (addReferenceable (JRef a) st)"
    using t enc_extends_addReferenceable[of "JRef a" st] by (simp add: enc_extends_def)
  have lt: "\<And>v r. referenceable st v = Some r \<Longrightarrow> r \<noteq> currentPos st"
    using t by (fastforce simp: table_ok_def)
  have gi: "graph_iso (f(a \<mapsto> a')) h (heap rst)"
    using graph_iso_add[OF _ fa assms(3,4,5,6)] assms(1) by (simp add: sim_def)
  show ?thesis unfolding sim_def
  proof (intro conjI allI impI)
    show "table_ok (addReferenceable (JRef a) st)" by (rule t')
  next
    fix v r
    assume "referenceable (addReferenceable (JRef a) st) v = Some r"
    then show "\<exists>v'. referenceable' (addReferenceable' (JRef a') rst) r = Some v' \<and>
        vrel (f(a \<mapsto> a')) v v'"
      using assms(1) lt vrel_mono[OF le]
      by (auto simp: sim_def addReferenceable_def addReferenceable'_def split: if_splits) blast
  next
    show "graph_iso (f(a \<mapsto> a')) h (heap (addReferenceable' (JRef a') rst))"
      using gi by (simp add: addReferenceable'_def)
  qed (use assms(1) in \<open>auto simp: sim_def addReferenceable_def addReferenceable'_def\<close>)
qed

lemma prefix_nth_eq: "prefix xs ys \<Longrightarrow> i < length xs \<Longrightarrow> ys ! i = xs ! i"
  by (auto simp: prefix_def nth_append)

lemma prefix_append_nth:
  "prefix (xs @ ys) data \<Longrightarrow> i < length ys \<Longrightarrow>
     length xs + i < length data \<and> data ! (length xs + i) = ys ! i"
  by (auto simp: prefix_def nth_append)

lemma prefixI_nth:
  "length xs \<le> length ys \<Longrightarrow> (\<forall>i<length xs. ys ! i = xs ! i) \<Longrightarrow> prefix xs ys"
proof -
  assume a: "length xs \<le> length ys" "\<forall>i<length xs. ys ! i = xs ! i"
  have "take (length xs) ys = xs"
    using a by (intro nth_equalityI) auto
  then have "ys = xs @ drop (length xs) ys"
    by (metis append_take_drop_id)
  then show ?thesis unfolding prefix_def by blast
qed

lemma for_of_process_prefix:
  "for_of (\<lambda>p. process reg h d (g p)) ps st = Inr st' \<Longrightarrow> prefix (result st) (result st')"
proof -
  assume a: "for_of (\<lambda>p. process reg h d (g p)) ps st = Inr st'"
  have "enc_extends st st'"
    by (rule for_of_rel[where R = enc_extends, rotated -1, OF a])
      (auto intro: enc_extends_refl enc_extends_trans process_extends)
  then show ?thesis by (auto simp: enc_extends_def prefix_def)
qed

lemma set_prop_heap:
  "a' < length H \<Longrightarrow>
   set_prop (JRef a') p v H
     = H[a' := JSObject (constructor_of (H ! a')) (AList.update p v (properties (H ! a')))]"
  by simp

lemma sim_props:
  assumes IH: "\<forall>item st st' f rst.
      encodable require reg h d item \<longrightarrow> process reg h d item st = Inr st' \<longrightarrow>
      sim h f st rst \<longrightarrow> prefix (result st') data \<longrightarrow>
      (\<exists>f' v' rst'. decodeValue require reg context data d rst = Inr (v', rst') \<and>
         sim h f' st' rst' \<and> grows f rst f' rst' \<and> vrel f' item v')"
  shows "for_of (\<lambda>p. process reg h d (get_prop h obj p)) ps st = Inr st' \<Longrightarrow>
     \<forall>p\<in>set ps. encodable require reg h d (get_prop h obj p) \<Longrightarrow>
     sim h f st rst \<Longrightarrow> prefix (result st') data \<Longrightarrow>
     a' < length (heap rst) \<Longrightarrow> a' \<notin> ran f \<Longrightarrow>
     \<exists>f' rst'.
        assign_props ps (JRef a') (decodeValue require reg context data d) rst = Inr rst' \<and>
        sim h f' st' rst' \<and> f \<subseteq>\<^sub>m f' \<and> a' \<notin> ran f' \<and>
        (\<forall>a b. f' a = Some b \<longrightarrow> f a = Some b \<or> length (heap rst) \<le> b) \<and>
        length (heap rst) \<le> length (heap rst') \<and>
        (\<forall>b<length (heap rst). b \<noteq> a' \<longrightarrow> heap rst' ! b = heap rst ! b) \<and>
        assigned_from h f' obj ps (heap rst ! a') (heap rst' ! a')"
proof (induction ps arbitrary: st f rst)
  case Nil
  then show ?case
    by (intro exI[of _ f] exI[of _ rst]) (simp add: assigned_from_def)
next
  case (Cons p ps)
  let ?rd = "decodeValue require reg context data d"
  from Cons.prems(1) obtain s1 where
    p1: "process reg h d (get_prop h obj p) st = Inr s1"
    and rest: "for_of (\<lambda>p. process reg h d (get_prop h obj p)) ps s1 = Inr st'"
    by (auto split: sum.splits)
  have pre1: "prefix (result s1) data"
    using for_of_process_prefix[OF rest] Cons.prems(4) by (rule prefix_order.trans)
  have enc_p: "encodable require reg h d (get_prop h obj p)"
    and enc_ps: "\<forall>p\<in>set ps. encodable require reg h d (get_prop h obj p)"
    using Cons.prems(2) by simp_all
  from IH[rule_format, OF enc_p p1 Cons.prems(3) pre1] obtain f1 v1 rst1 where
    dv: "?rd rst = Inr (v1, rst1)" and sim1: "sim h f1 s1 rst1"
    and gr: "grows f rst f1 rst1" and vr: "vrel f1 (get_prop h obj p) v1"
    by blast
  have le1: "f \<subseteq>\<^sub>m f1" and hp: "prefix (heap rst) (heap rst1)"
    and fresh1: "\<forall>a b. f1 a = Some b \<longrightarrow> f a = Some b \<or> length (heap rst) \<le> b"
    using gr by (auto simp: grows_def)
  have len1: "length (heap rst) \<le> length (heap rst1)" using hp by (rule prefix_length_le)
  have a1: "a' < length (heap rst1)" using Cons.prems(5) len1 by simp
  have nr1: "a' \<notin> ran f1"
    using fresh1 Cons.prems(5,6) by (fastforce simp: ran_def)
  let ?H2 = "set_prop (JRef a') p v1 (heap rst1)"
  let ?rst2 = "rst1\<lparr>heap := ?H2\<rparr>"
  have H2: "?H2 = (heap rst1)[a' := JSObject (constructor_of (heap rst1 ! a'))
                                   (AList.update p v1 (properties (heap rst1 ! a')))]"
    using a1 by simp
  have sim2: "sim h f1 s1 ?rst2"
  proof (rule sim_heap[OF sim1])
    show "length (heap rst1) \<le> length ?H2" by (simp add: H2)
    show "\<forall>a b. f1 a = Some b \<longrightarrow> ?H2 ! b = heap rst1 ! b"
    proof (intro allI impI)
      fix a b assume "f1 a = Some b"
      then have "b \<noteq> a'" using nr1 by (auto simp: ran_def)
      then show "?H2 ! b = heap rst1 ! b" unfolding H2 by simp
    qed
  qed
  have a2: "a' < length (heap ?rst2)" using a1 by (simp add: H2)
  from Cons.IH[OF rest enc_ps sim2 Cons.prems(4) a2 nr1] obtain f' rst' where
    ap: "assign_props ps (JRef a') ?rd ?rst2 = Inr rst'"
    and sim': "sim h f' st' rst'" and le': "f1 \<subseteq>\<^sub>m f'" and nr': "a' \<notin> ran f'"
    and fresh': "\<forall>a b. f' a = Some b \<longrightarrow> f1 a = Some b \<or> length (heap ?rst2) \<le> b"
    and len': "length (heap ?rst2) \<le> length (heap rst')"
    and frame': "\<forall>b<length (heap ?rst2). b \<noteq> a' \<longrightarrow> heap rst' ! b = heap ?rst2 ! b"
    and asg': "assigned_from h f' obj ps (heap ?rst2 ! a') (heap rst' ! a')"
    by blast
  have l2: "length (heap ?rst2) = length (heap rst1)" by (simp add: H2)
  have at2: "heap ?rst2 ! a' = JSObject (constructor_of (heap rst ! a'))
                                 (AList.update p v1 (properties (heap rst ! a')))"
    using a1 prefix_nth_eq[OF hp Cons.prems(5)] by (simp add: H2)
  have c1: "assign_props (p # ps) (JRef a') ?rd rst = Inr rst'"
    using dv ap by simp
  have c2: "f \<subseteq>\<^sub>m f'" using le1 le' by (rule map_le_trans)
  have c3: "\<forall>a b. f' a = Some b \<longrightarrow> f a = Some b \<or> length (heap rst) \<le> b"
  proof (intro allI impI)
    fix a b assume "f' a = Some b"
    then consider "f1 a = Some b" | "length (heap ?rst2) \<le> b" using fresh' by blast
    then show "f a = Some b \<or> length (heap rst) \<le> b"
    proof cases
      case 1
      then show ?thesis using fresh1 by blast
    next
      case 2
      then show ?thesis using len1 l2 by simp
    qed
  qed
  have c4: "length (heap rst) \<le> length (heap rst')"
    using len1 len' l2 by simp
  have c5: "\<forall>b<length (heap rst). b \<noteq> a' \<longrightarrow> heap rst' ! b = heap rst ! b"
  proof (intro allI impI)
    fix b assume b: "b < length (heap rst)" "b \<noteq> a'"
    then have "heap rst' ! b = heap ?rst2 ! b" using frame' len1 l2 by simp
    also have "\<dots> = heap rst1 ! b" using b by (simp add: H2)
    also have "\<dots> = heap rst ! b" using prefix_nth_eq[OF hp b(1)] .
    finally show "heap rst' ! b = heap rst ! b" .
  qed
  have c6: "assigned_from h f' obj (p # ps) (heap rst ! a') (heap rst' ! a')"
    unfolding assigned_from_def
  proof (intro conjI allI)
    show "constructor_of (heap rst' ! a') = constructor_of (heap rst ! a')"
      using asg' at2 by (simp add: assigned_from_def)
  next
    fix q
    show "if q \<in> set (p # ps)
          then \<exists>v'. map_of (properties (heap rst' ! a')) q = Some v' \<and>
                    vrel f' (get_prop h obj q) v'
          else map_of (properties (heap rst' ! a')) q = map_of (properties (heap rst ! a')) q"
    proof (cases "q \<in> set ps")
      case True
      then show ?thesis using asg' by (auto simp: assigned_from_def)
    next
      case False
      have "if q \<in> set ps
          then \<exists>v'. map_of (properties (heap rst' ! a')) q = Some v' \<and>
                    vrel f' (get_prop h obj q) v'
          else map_of (properties (heap rst' ! a')) q = map_of (properties (heap ?rst2 ! a')) q"
        using asg' unfolding assigned_from_def by blast
      then have eq: "map_of (properties (heap rst' ! a')) q = map_of (properties (heap ?rst2 ! a')) q"
        using False by simp
      show ?thesis
      proof (cases "q = p")
        case True
        then show ?thesis using eq at2 vrel_mono[OF le' vr] by (simp add: update_conv)
      next
        case False
        then show ?thesis using eq at2 \<open>q \<notin> set ps\<close> by (simp add: update_conv)
      qed
    qed
  qed
  show ?case
    apply (rule exI[of _ f'], rule exI[of _ rst'])
    apply (intro conjI)
          apply (rule c1)
         apply (rule sim')
        apply (rule c2)
       apply (rule nr')
      apply (rule c3)
     apply (rule c4)
    apply (rule c5)
    apply (rule c6)
    done
qed

lemma graph_iso_ran: "graph_iso f h H \<Longrightarrow> f a = Some b \<Longrightarrow> b < length H"
  by (auto simp: graph_iso_def)

lemma sim_table:
  "sim h f st rst \<Longrightarrow> referenceable st v = Some r \<Longrightarrow>
     \<exists>v'. referenceable' rst r = Some v' \<and> vrel f v v'"
  unfolding sim_def by blast

lemma sim_facts:
  assumes "sim h f st rst"
  shows "table_ok st" "currentPos' rst = currentPos st" "currentDataPos rst = length (result st)"
    "graph_iso f h (heap rst)"
  using assms unfolding sim_def by blast+

lemma grows_trans: "grows f rst f1 rst1 \<Longrightarrow> grows f1 rst1 f2 rst2 \<Longrightarrow> grows f rst f2 rst2"
  unfolding grows_def
proof (intro conjI allI impI)
  assume a: "f \<subseteq>\<^sub>m f1 \<and> prefix (heap rst) (heap rst1) \<and>
      (\<forall>a b. f1 a = Some b \<longrightarrow> f a = Some b \<or> length (heap rst) \<le> b)"
    and b: "f1 \<subseteq>\<^sub>m f2 \<and> prefix (heap rst1) (heap rst2) \<and>
      (\<forall>a b. f2 a = Some b \<longrightarrow> f1 a = Some b \<or> length (heap rst1) \<le> b)"
  show "f \<subseteq>\<^sub>m f2" using a b map_le_trans by blast
  show "prefix (heap rst) (heap rst2)" using a b prefix_order.trans by blast
  fix x y assume "f2 x = Some y"
  then consider "f1 x = Some y" | "length (heap rst1) \<le> y" using b by blast
  then show "f x = Some y \<or> length (heap rst) \<le> y"
  proof cases
    case 1
    then show ?thesis using a by blast
  next
    case 2
    moreover have "length (heap rst) \<le> length (heap rst1)"
      using a prefix_length_le by blast
    ultimately show ?thesis by simp
  qed
qed

lemma sim_reader:
  assumes IH: "\<forall>item st st' f rst.
      encodable require reg h d item \<longrightarrow> process reg h d item st = Inr st' \<longrightarrow>
      sim h f st rst \<longrightarrow> prefix (result st') data \<longrightarrow>
      (\<exists>f' v' rst'. decodeValue require reg context data d rst = Inr (v', rst') \<and>
         sim h f' st' rst' \<and> grows f rst f' rst' \<and> vrel f' item v')"
  shows "for_of (process reg h d) vs st = Inr st' \<Longrightarrow>
     \<forall>c\<in>set vs. encodable require reg h d c \<Longrightarrow>
     sim h f st rst \<Longrightarrow> prefix (result st') data \<Longrightarrow>
     \<exists>f' rst' vs'.
        sim h f' st' rst' \<and> grows f rst f' rst' \<and> list_all2 (vrel f') vs vs' \<and>
        (\<forall>r r'. feed r vs' = Some r' \<longrightarrow>
           run_reader (decodeValue require reg context data d) r rst =
           run_reader (decodeValue require reg context data d) r' rst')"
proof (induction vs arbitrary: st f rst)
  case Nil
  then show ?case
    by (intro exI[of _ f] exI[of _ rst] exI[of _ "[]"]) (simp add: grows_refl)
next
  case (Cons c vs)
  let ?rd = "decodeValue require reg context data d"
  from Cons.prems(1) obtain s1 where
    p1: "process reg h d c st = Inr s1" and rest: "for_of (process reg h d) vs s1 = Inr st'"
    by (auto split: sum.splits)
  have pre1: "prefix (result s1) data"
    using for_of_process_prefix[of reg h d "\<lambda>v. v" vs s1 st'] rest Cons.prems(4)
    by (auto intro: prefix_order.trans)
  have enc_c: "encodable require reg h d c"
    and enc_vs: "\<forall>c\<in>set vs. encodable require reg h d c"
    using Cons.prems(2) by simp_all
  from IH[rule_format, OF enc_c p1 Cons.prems(3) pre1] obtain f1 v1 rst1 where
    dv: "?rd rst = Inr (v1, rst1)" and sim1: "sim h f1 s1 rst1"
    and gr1: "grows f rst f1 rst1" and vr: "vrel f1 c v1"
    by blast
  from Cons.IH[OF rest enc_vs sim1 Cons.prems(4)] obtain f' rst' vs1 where
    sim': "sim h f' st' rst'" and gr': "grows f1 rst1 f' rst'"
    and rel: "list_all2 (vrel f') vs vs1"
    and fd: "\<forall>r r'. feed r vs1 = Some r' \<longrightarrow> run_reader ?rd r rst1 = run_reader ?rd r' rst'"
    by blast
  have le': "f1 \<subseteq>\<^sub>m f'" using gr' by (simp add: grows_def)
  have c1: "grows f rst f' rst'" using grows_trans[OF gr1 gr'] .
  have c2: "list_all2 (vrel f') (c # vs) (v1 # vs1)"
    using rel vrel_mono[OF le' vr] by simp
  have c3: "\<forall>r r'. feed r (v1 # vs1) = Some r' \<longrightarrow> run_reader ?rd r rst = run_reader ?rd r' rst'"
  proof (intro allI impI)
    fix r r' assume a: "feed r (v1 # vs1) = Some r'"
    then obtain k where r: "r = Read k" and "feed (k v1) vs1 = Some r'"
      by (cases r) auto
    then have "run_reader ?rd (k v1) rst1 = run_reader ?rd r' rst'" using fd by blast
    then show "run_reader ?rd r rst = run_reader ?rd r' rst'"
      using r dv by simp
  qed
  show ?case
    apply (rule exI[of _ f'], rule exI[of _ rst'], rule exI[of _ "v1 # vs1"])
    apply (intro conjI)
       apply (rule sim')
      apply (rule c1)
     apply (rule c2)
    apply (rule c3)
    done
qed

lemma sim_process:
  "encodable require reg h d item \<Longrightarrow> process reg h d item st = Inr st' \<Longrightarrow>
   sim h f st rst \<Longrightarrow> prefix (result st') data \<Longrightarrow>
   \<exists>f' v' rst'. decodeValue require reg context data d rst = Inr (v', rst') \<and>
      sim h f' st' rst' \<and> grows f rst f' rst' \<and> vrel f' item v'"
proof (induction d arbitrary: item st st' f rst)
  case 0
  then show ?case by simp
next
  case (Suc d)
  note sim0 = Suc.prems(3)
  have cur: "currentDataPos rst = length (result st)" using sim_facts(3)[OF sim0] .
  have pos: "currentPos' rst = currentPos st" using sim_facts(2)[OF sim0] .
  show ?case
  proof (cases "referenceable st item")
    case (Some ref)
    have st': "st' = push [ESCAPE, JNum (ref - currentPos st)] st"
      using Suc.prems(2) Some by (simp add: process_hit)
    have "ref < currentPos st" using sim_facts(1)[OF sim0] Some by (auto simp: table_ok_def)
    then have k: "ref - currentPos st \<noteq> 1" by simp
    from sim_table[OF sim0 Some] obtain v' where
      tv: "referenceable' rst ref = Some v'" and vr: "vrel f item v'" by blast
    have pre: "prefix (result st @ [ESCAPE, JNum (ref - currentPos st)]) data"
      using Suc.prems(4) st' by (simp add: push_def)
    have d0: "currentDataPos rst + 1 < length data" "data ! currentDataPos rst = ESCAPE"
      "data ! (currentDataPos rst + 1) = JNum (ref - currentPos st)"
      using prefix_append_nth[OF pre, of 0] prefix_append_nth[OF pre, of 1] cur by simp_all
    have dv: "decodeValue require reg context data (Suc d) rst =
        Inr (v', rst\<lparr>currentDataPos := currentDataPos rst + 2\<rparr>)"
      using decodeValue_reference[OF d0 k] tv pos by simp
    have sm: "sim h f st' (rst\<lparr>currentDataPos := currentDataPos rst + 2\<rparr>)"
      unfolding st' by (rule sim_push[OF sim0]) simp
    have gr: "grows f rst f (rst\<lparr>currentDataPos := currentDataPos rst + 2\<rparr>)"
      by (simp add: grows_def)
    show ?thesis using dv sm gr vr by blast
  next
    case None
    show ?thesis
    proof (cases item)
      case JNull
      have st': "st' = push [ESCAPE, ESCAPE_ESCAPE_VALUE] st"
        using Suc.prems(2) None JNull by (simp add: process_null)
      have pre: "prefix (result st @ [ESCAPE, ESCAPE_ESCAPE_VALUE]) data"
        using Suc.prems(4) st' by (simp add: push_def)
      have d0: "currentDataPos rst + 1 < length data" "data ! currentDataPos rst = ESCAPE"
        "data ! (currentDataPos rst + 1) = ESCAPE_ESCAPE_VALUE"
        using prefix_append_nth[OF pre, of 0] prefix_append_nth[OF pre, of 1] cur by simp_all
      have dv: "decodeValue require reg context data (Suc d) rst =
          Inr (ESCAPE, rst\<lparr>currentDataPos := currentDataPos rst + 2\<rparr>)"
        using decodeValue_escaped[OF d0] .
      have sm: "sim h f st' (rst\<lparr>currentDataPos := currentDataPos rst + 2\<rparr>)"
        unfolding st' by (rule sim_push[OF sim0]) simp
      have gr: "grows f rst f (rst\<lparr>currentDataPos := currentDataPos rst + 2\<rparr>)"
        by (simp add: grows_def)
      have vr: "vrel f item ESCAPE" using JNull by (simp add: ESCAPE_def)
      show ?thesis using dv sm gr vr by blast
    next
      case (JStr s)
      have st': "st' = push [JStr s] (addReferenceable (JStr s) st)"
        using Suc.prems(2) None JStr by (simp add: process_string)
      have pre: "prefix (result st @ [JStr s]) data"
        using Suc.prems(4) st' by (simp add: push_def addReferenceable_def)
      have d0: "currentDataPos rst < length data" "data ! currentDataPos rst = JStr s"
        using prefix_append_nth[OF pre, of 0] cur by simp_all
      let ?rst' = "addReferenceable' (JStr s) (rst\<lparr>currentDataPos := currentDataPos rst + 1\<rparr>)"
      have dv: "decodeValue require reg context data (Suc d) rst = Inr (JStr s, ?rst')"
        using decodeValue_string[OF d0] .
      have sm: "sim h f st' ?rst'"
        unfolding st' by (rule sim_string[OF sim0])
      have gr: "grows f rst f ?rst'"
        by (simp add: grows_def addReferenceable'_def)
      have vr: "vrel f item (JStr s)" using JStr by simp
      show ?thesis using dv sm gr vr by blast
    next
      case (JFun g)
      then show ?thesis using Suc.prems(1) by (simp add: encodable_other)
    next
      case JUndefined
      then have pl: "item = JUndefined \<or> (\<exists>n. item = JNum n) \<or> (\<exists>b. item = JBool b)" by simp
      have st': "st' = push [item] st"
        using Suc.prems(2) process_plain[OF None pl] by simp
      have pre: "prefix (result st @ [item]) data"
        using Suc.prems(4) st' by (simp add: push_def)
      have d0: "currentDataPos rst < length data" "data ! currentDataPos rst = item"
        using prefix_append_nth[OF pre, of 0] cur by simp_all
      have dv: "decodeValue require reg context data (Suc d) rst =
          Inr (item, rst\<lparr>currentDataPos := currentDataPos rst + 1\<rparr>)"
        using decodeValue_plain[OF d0 pl] .
      have sm: "sim h f st' (rst\<lparr>currentDataPos := currentDataPos rst + 1\<rparr>)"
        unfolding st' by (rule sim_push[OF sim0]) simp
      have gr: "grows f rst f (rst\<lparr>currentDataPos := currentDataPos rst + 1\<rparr>)"
        by (simp add: grows_def)
      have vr: "vrel f item item" using JUndefined by simp
      show ?thesis using dv sm gr vr by blast
    next
      case (JNum n)
      then have pl: "item = JUndefined \<or> (\<exists>n. item = JNum n) \<or> (\<exists>b. item = JBool b)" by simp
      have st': "st' = push [item] st"
        using Suc.prems(2) process_plain[OF None pl] by simp
      have pre: "prefix (result st @ [item]) data"
        using Suc.prems(4) st' by (simp add: push_def)
      have d0: "currentDataPos rst < length data" "data ! currentDataPos rst = item"
        using prefix_append_nth[OF pre, of 0] cur by simp_all
      have dv: "decodeValue require reg context data (Suc d) rst =
          Inr (item, rst\<lparr>currentDataPos := currentDataPos rst + 1\<rparr>)"
        using decodeValue_plain[OF d0 pl] .
      have sm: "sim h f st' (rst\<lparr>currentDataPos := currentDataPos rst + 1\<rparr>)"
        unfolding st' by (rule sim_push[OF sim0]) simp
      have gr: "grows f rst f (rst\<lparr>currentDataPos := currentDataPos rst + 1\<rparr>)"
        by (simp add: grows_def)
      have vr: "vrel f item item" using JNum by simp
      show ?thesis using dv sm gr vr by blast
    next
      case (JBool b)
      then have pl: "item = JUndefined \<or> (\<exists>n. item = JNum n) \<or> (\<exists>b. item = JBool b)" by simp
      have st': "st' = push [item] st"
        using Suc.prems(2) process_plain[OF None pl] by simp
      have pre: "prefix (result st @ [item]) data"
        using Suc.prems(4) st' by (simp add: push_def)
      have d0: "currentDataPos rst < length data" "data ! currentDataPos rst = item"
        using prefix_append_nth[OF pre, of 0] cur by simp_all
      have dv: "decodeValue require reg context data (Suc d) rst =
          Inr (item, rst\<lparr>currentDataPos := currentDataPos rst + 1\<rparr>)"
        using decodeValue_plain[OF d0 pl] .
      have sm: "sim h f st' (rst\<lparr>currentDataPos := currentDataPos rst + 1\<rparr>)"
        unfolding st' by (rule sim_push[OF sim0]) simp
      have gr: "grows f rst f (rst\<lparr>currentDataPos := currentDataPos rst + 1\<rparr>)"
        by (simp add: grows_def)
      have vr: "vrel f item item" using JBool by simp
      show ?thesis using dv sm gr vr by blast
    next
      case (JRef a)
      from Suc.prems(1)[unfolded JRef encodable_JRef] obtain obj cfg vs where
        o: "lookup h a = Some obj" and sc: "serializers reg (constructor_of obj) = Some cfg"
        and wr: "written (serializer cfg) h (JRef a) = Inr vs"
        and fa: "faithful (serializer cfg) obj vs"
        and rq: "typeof (request cfg) \<noteq> ''number''"
        and fs: "find_serializer require reg (request cfg) (exportName cfg) = Inr (serializer cfg)"
        and ch: "\<forall>c\<in>set vs. encodable require reg h d c"
        by blast
      have ha: "a < length h" "h ! a = obj"
        using o by (auto simp: lookup_def split: if_splits)
      have g: "getSerializerFor reg h (JRef a) = Inr cfg"
        using o sc by (simp add: getSerializerFor_def)
      let ?st0 = "push [ESCAPE, request cfg, exportName cfg] st"
      from Suc.prems(2) JRef None g wr obtain st1 where
        run: "for_of (process reg h d) vs ?st0 = Inr st1"
        and st': "st' = addReferenceable (JRef a) st1"
        by (auto simp: process_object serializer_serialize_written split: sum.splits)
      have res': "result st' = result st1" using st' by (simp add: addReferenceable_def)
      have pre1: "prefix (result st1) data" using Suc.prems(4) res' by simp
      have pre0: "prefix (result st @ [ESCAPE, request cfg, exportName cfg]) data"
        using for_of_process_prefix[of reg h d "\<lambda>v. v" vs ?st0 st1] run pre1
        by (simp add: push_def)
      have d0: "currentDataPos rst + 2 < length data" "data ! currentDataPos rst = ESCAPE"
        "data ! (currentDataPos rst + 1) = request cfg"
        "data ! (currentDataPos rst + 2) = exportName cfg"
        using prefix_append_nth[OF pre0, of 0] prefix_append_nth[OF pre0, of 1]
          prefix_append_nth[OF pre0, of 2] cur by simp_all
      let ?rd = "decodeValue require reg context data d"
      let ?rst3 = "rst\<lparr>currentDataPos := currentDataPos rst + 3\<rparr>"
      have dv: "decodeValue require reg context data (Suc d) rst =
          (case serializer_deserialize (serializer cfg) ?rd ?rst3 of
             Inl e \<Rightarrow> Inl e
           | Inr (ob, st4) \<Rightarrow> Inr (ob, addReferenceable' ob st4))"
        using decodeValue_object[OF d0(1) d0(2) d0(3) rq d0(4) fs] .
      have sim3: "sim h f ?st0 ?rst3" by (rule sim_push[OF sim0]) simp
      have gi: "graph_iso f h (heap rst)" using sim_facts(4)[OF sim0] .
      have ih: "\<forall>item st st' f rst.
          encodable require reg h d item \<longrightarrow> process reg h d item st = Inr st' \<longrightarrow>
          sim h f st rst \<longrightarrow> prefix (result st') data \<longrightarrow>
          (\<exists>f' v' rst'. decodeValue require reg context data d rst = Inr (v', rst') \<and>
             sim h f' st' rst' \<and> grows f rst f' rst' \<and> vrel f' item v')"
        using Suc.IH by blast
      have r0: "referenceable ?st0 (JRef a) = None"
        using None JRef by (simp add: push_def)
      have fresh_parent: "referenceable st1 (JRef a) = None"
        by (rule parent_stays_unregistered[OF o sc wr run r0])
      show ?thesis
      proof (cases "serializer cfg")
        case (PropertiesSerializer C props hook)
        have ser: "serializer cfg = PropertiesSerializer (constructor_of obj) props None"
          and keys: "set props = fst ` set (properties obj)"
          using fa PropertiesSerializer by simp_all
        have vs: "vs = map (get_prop h (JRef a)) props"
          using wr ser by simp
        have run': "for_of (\<lambda>p. process reg h d (get_prop h (JRef a) p)) props ?st0 = Inr st1"
          using run vs for_of_map[of "process reg h d" "get_prop h (JRef a)" props ?st0]
          by simp
        have ch': "\<forall>p\<in>set props. encodable require reg h d (get_prop h (JRef a) p)"
          using ch vs by simp
        let ?a' = "length (heap rst)"
        let ?rstA = "?rst3\<lparr>heap := heap rst @ [JSObject (constructor_of obj) []]\<rparr>"
        have nr: "?a' \<notin> ran f"
          using graph_iso_ran[OF gi] by (fastforce simp: ran_def)
        have simA: "sim h f ?st0 ?rstA"
        proof (rule sim_heap[OF sim3])
          show "length (heap ?rst3) \<le> length (heap rst @ [JSObject (constructor_of obj) []])"
            by simp
          show "\<forall>a a'. f a = Some a' \<longrightarrow>
              (heap rst @ [JSObject (constructor_of obj) []]) ! a' = heap ?rst3 ! a'"
            using graph_iso_ran[OF gi] by (simp add: nth_append)
        qed
        have aA: "?a' < length (heap ?rstA)" by simp
        from sim_props[where a' = ?a' and obj = "JRef a", OF ih run' ch' simA pre1 aA nr]
        obtain f1 rst1 where
          ap: "assign_props props (JRef ?a') ?rd ?rstA = Inr rst1"
          and sim1: "sim h f1 st1 rst1" and le1: "f \<subseteq>\<^sub>m f1" and nr1: "?a' \<notin> ran f1"
          and fresh1: "\<forall>a b. f1 a = Some b \<longrightarrow> f a = Some b \<or> length (heap ?rstA) \<le> b"
          and len1: "length (heap ?rstA) \<le> length (heap rst1)"
          and frame1: "\<forall>b<length (heap ?rstA). b \<noteq> ?a' \<longrightarrow> heap rst1 ! b = heap ?rstA ! b"
          and asg: "assigned_from h f1 (JRef a) props (heap ?rstA ! ?a') (heap rst1 ! ?a')"
          by blast
        let ?rst' = "addReferenceable' (JRef ?a') rst1"
        have des: "serializer_deserialize (serializer cfg) ?rd ?rst3 = Inr (JRef ?a', rst1)"
          using ap by (simp add: ser PropertiesSerializer_deserialize_def Let_def)
        have dv': "decodeValue require reg context data (Suc d) rst = Inr (JRef ?a', ?rst')"
          using dv des by simp
        let ?f' = "f1(a \<mapsto> ?a')"
        have f1a: "f1 a = None"
        proof -
          have "\<forall>a. f1 a \<noteq> None \<longleftrightarrow> referenceable st1 (JRef a) \<noteq> None"
            using sim1 unfolding sim_def by blast
          then show ?thesis using fresh_parent by blast
        qed
        have le': "f1 \<subseteq>\<^sub>m ?f'" using f1a by (simp add: map_le_def dom_def)
        have a1: "?a' < length (heap rst1)" using len1 by simp
        have orl: "orel ?f' (h ! a) (heap rst1 ! ?a')"
          unfolding orel_def
        proof (intro conjI allI)
          show "constructor_of (heap rst1 ! ?a') = constructor_of (h ! a)"
            using asg ha by (simp add: assigned_from_def)
        next
          fix q
          have aq: "if q \<in> set props
            then \<exists>v'. map_of (properties (heap rst1 ! ?a')) q = Some v' \<and>
                      vrel f1 (get_prop h (JRef a) q) v'
            else map_of (properties (heap rst1 ! ?a')) q = map_of (properties (heap ?rstA ! ?a')) q"
            using asg unfolding assigned_from_def by blast
          show "rel_option (vrel ?f') (map_of (properties (h ! a)) q)
                  (map_of (properties (heap rst1 ! ?a')) q)"
          proof (cases "q \<in> set props")
            case True
            then obtain v' where m': "map_of (properties (heap rst1 ! ?a')) q = Some v'"
              and v': "vrel f1 (get_prop h (JRef a) q) v'" using aq by auto
            from True keys obtain w where w: "map_of (properties obj) q = Some w"
              by (metis domD dom_map_of_conv_image_fst)
            then have "get_prop h (JRef a) q = w" using o by simp
            then show ?thesis using w m' vrel_mono[OF le' v'] ha by simp
          next
            case False
            then have "map_of (properties (heap rst1 ! ?a')) q = None" using aq by simp
            moreover have "map_of (properties obj) q = None"
              using False keys by (metis domIff dom_map_of_conv_image_fst)
            ultimately show ?thesis using ha by simp
          qed
        qed
        have sim': "sim h ?f' st' ?rst'"
          unfolding st' by (rule sim_object[OF sim1 fresh_parent nr1 ha(1) a1 orl])
        have gr: "grows f rst ?f' ?rst'"
          unfolding grows_def
        proof (intro conjI allI impI)
          show "f \<subseteq>\<^sub>m ?f'" using le1 le' by (rule map_le_trans)
        next
          have "prefix (heap rst) (heap rst1)"
          proof (rule prefixI_nth)
            show "length (heap rst) \<le> length (heap rst1)" using len1 by simp
            show "\<forall>i<length (heap rst). heap rst1 ! i = heap rst ! i"
              using frame1 by (simp add: nth_append)
          qed
          then show "prefix (heap rst) (heap ?rst')" by (simp add: addReferenceable'_def)
        next
          fix x b assume "?f' x = Some b"
          then show "f x = Some b \<or> length (heap rst) \<le> b"
            using fresh1 by (cases "x = a") (auto, fastforce)
        qed
        have vr: "vrel ?f' item (JRef ?a')" using JRef by simp
        show ?thesis
          apply (rule exI[of _ ?f'], rule exI[of _ "JRef ?a'"], rule exI[of _ ?rst'])
          apply (intro conjI)
             apply (rule dv')
            apply (rule sim')
           apply (rule gr)
          apply (rule vr)
          done

      next
        case (CustomSerializer w rdr)
        from sim_reader[OF ih run ch sim3 pre1] obtain f1 rst1 vs' where
          sim1: "sim h f1 st1 rst1" and gr1: "grows f ?rst3 f1 rst1"
          and rel: "list_all2 (vrel f1) vs vs'"
          and fd: "\<forall>r r'. feed r vs' = Some r' \<longrightarrow> run_reader ?rd r ?rst3 = run_reader ?rd r' rst1"
          by blast
        from fa CustomSerializer rel have "rebuilds f1 obj rdr vs'" by simp
        then obtain build obj' where
          fb: "feed rdr vs' = Some (Construct build)"
          and bd: "build (heap rst1) = Inr (JRef (length (heap rst1)), heap rst1 @ [obj'])"
          and ol: "orel f1 obj obj'"
          unfolding rebuilds_def by blast
        let ?a' = "length (heap rst1)"
        let ?rst2 = "rst1\<lparr>heap := heap rst1 @ [obj']\<rparr>"
        let ?rst' = "addReferenceable' (JRef ?a') ?rst2"
        have des: "serializer_deserialize (serializer cfg) ?rd ?rst3 = Inr (JRef ?a', ?rst2)"
          using fd fb bd CustomSerializer by simp
        have dv': "decodeValue require reg context data (Suc d) rst = Inr (JRef ?a', ?rst')"
          using dv des by simp
        have gi1: "graph_iso f1 h (heap rst1)" using sim_facts(4)[OF sim1] .
        have nr1: "?a' \<notin> ran f1"
          using graph_iso_ran[OF gi1] by (fastforce simp: ran_def)
        have sim2: "sim h f1 st1 ?rst2"
        proof (rule sim_heap[OF sim1])
          show "length (heap rst1) \<le> length (heap rst1 @ [obj'])" by simp
          show "\<forall>a a'. f1 a = Some a' \<longrightarrow> (heap rst1 @ [obj']) ! a' = heap rst1 ! a'"
            using graph_iso_ran[OF gi1] by (simp add: nth_append)
        qed
        let ?f' = "f1(a \<mapsto> ?a')"
        have f1a: "f1 a = None"
        proof -
          have "\<forall>a. f1 a \<noteq> None \<longleftrightarrow> referenceable st1 (JRef a) \<noteq> None"
            using sim1 unfolding sim_def by blast
          then show ?thesis using fresh_parent by blast
        qed
        have le': "f1 \<subseteq>\<^sub>m ?f'" using f1a by (simp add: map_le_def dom_def)
        have orl: "orel ?f' (h ! a) (heap ?rst2 ! ?a')"
          using orel_mono[OF le' ol] ha by simp
        have a2: "?a' < length (heap ?rst2)" by simp
        have sim': "sim h ?f' st' ?rst'"
          unfolding st' by (rule sim_object[OF sim2 fresh_parent nr1 ha(1) a2 orl])
        have gr2: "grows f1 rst1 ?f' ?rst'"
          using le' by (auto simp: grows_def addReferenceable'_def split: if_splits)
        have gr3: "grows f rst f ?rst3" by (simp add: grows_def)
        have gr: "grows f rst ?f' ?rst'"
          using grows_trans[OF grows_trans[OF gr3 gr1] gr2] .
        have vr: "vrel ?f' item (JRef ?a')" using JRef by simp
        show ?thesis
          apply (rule exI[of _ ?f'], rule exI[of _ "JRef ?a'"], rule exI[of _ ?rst'])
          apply (intro conjI)
             apply (rule dv')
            apply (rule sim')
           apply (rule gr)
          apply (rule vr)
          done
      qed
    qed
  qed
qed


lemma for_of_total:
  assumes "\<And>x s. x \<in> set xs \<Longrightarrow> \<exists>s'. body x s = Inr s'"
  shows "\<exists>st'. for_of body xs st = Inr st'"
  using assms
proof (induction xs arbitrary: st)
  case Nil
  then show ?case by simp
next
  case (Cons x xs)
  obtain s1 where "body x st = Inr s1" using Cons.prems[of x st] by auto
  moreover obtain s2 where "for_of body xs s1 = Inr s2"
    using Cons.IH[of s1] Cons.prems by auto
  ultimately show ?case by simp
qed

lemma encodable_process:
  "encodable require reg h d item \<Longrightarrow> \<exists>st'. process reg h d item st = Inr st'"
proof (induction d arbitrary: item st)
  case 0
  then show ?case by simp
next
  case (Suc d)
  show ?case
  proof (cases "referenceable st item")
    case (Some ref)
    then show ?thesis by (simp add: process_hit)
  next
    case None
    show ?thesis
    proof (cases item)
      case (JRef a)
      from Suc.prems[unfolded JRef encodable_JRef] obtain obj cfg vs where
        o: "lookup h a = Some obj" and sc: "serializers reg (constructor_of obj) = Some cfg"
        and wr: "written (serializer cfg) h (JRef a) = Inr vs"
        and ch: "\<forall>c\<in>set vs. encodable require reg h d c"
        by blast
      have g: "getSerializerFor reg h (JRef a) = Inr cfg"
        using o sc by (simp add: getSerializerFor_def)
      obtain st1 where "for_of (process reg h d) vs
            (push [ESCAPE, request cfg, exportName cfg] st) = Inr st1"
        using for_of_total[of vs "process reg h d"] Suc.IH ch by blast
      then show ?thesis using JRef None g wr
        by (simp add: process_object serializer_serialize_written)
    next
      case (JFun g)
      then show ?thesis using Suc.prems by (simp add: encodable_other)
    qed (use None in \<open>simp_all add: process_null process_string process_plain\<close>)
  qed
qed

lemma sim_init: "sim h Map.empty enc_init (dec_init h0)"
  by (simp add: sim_def enc_init_def dec_init_def table_ok_def graph_iso_def)

lemma serialize_single:
  "serialize reg h depth [item] =
     (case process reg h depth item enc_init of Inl e \<Rightarrow> Inl e | Inr st \<Rightarrow> Inr (result st))"
  by (simp add: serialize_def enc_init_def split: sum.splits)

lemma deserialize_single:
  assumes "decodeValue require reg context data depth (dec_init h0) = Inr (v, rst)"
    and "currentDataPos rst = length data"
  shows "deserialize require reg context h0 depth data = Inr ([v], heap rst)"
proof -
  have "0 < length data" using decodeValue_advances[OF assms(1)] assms(2) by (cases data) simp_all
  then have "decode_loop require reg context data depth [] (dec_init h0)
      = decode_loop require reg context data depth [v] rst"
    using assms(1) by (subst decode_loop.simps) (simp add: dec_init_def)
  also have "\<dots> = Inr ([v], rst)"
    using assms(2) by (subst decode_loop.simps) simp
  finally show ?thesis by (simp add: deserialize_def dec_init_def)
qed

lemma roundtrip_states:
  assumes "encodable require reg h depth item"
  shows "\<exists>st' f v' rst'.
     process reg h depth item enc_init = Inr st' \<and>
     decodeValue require reg context (result st') depth (dec_init h0) = Inr (v', rst') \<and>
     sim h f st' rst' \<and> grows Map.empty (dec_init h0) f rst' \<and> vrel f item v'"
proof -
  obtain st' where p: "process reg h depth item enc_init = Inr st'"
    using encodable_process[OF assms] by blast
  have "prefix (result st') (result st')" by simp
  from sim_process[OF assms p sim_init this]
  show ?thesis using p by blast
qed

lemma example_getSerializerFor:
  "getSerializerFor example_registry cyclic_heap (JRef 0)
     = Inr \<lparr>request = JStr ''foo.js'', exportName = JNull,
            serializer = PropertiesSerializer (Class ''Foo'') [''a'', ''b''] None\<rparr>"
  by (simp add: getSerializerFor_def lookup_def cyclic_heap_def example_registry_def
      register_PropertiesSerializer_def register_def GLOBAL_SERIALIZER_REQUEST_def
      initial_registry_def)

lemma cyclic_process:
  "referenceable st (JRef 0) = None \<Longrightarrow>
   process example_registry cyclic_heap depth (JRef 0) st = Inl RangeError"
proof (induction depth arbitrary: st)
  case 0
  then show ?case by simp
next
  case (Suc depth)
  have g: "get_prop cyclic_heap (JRef 0) ''a'' = JRef 0"
    by (simp add: cyclic_heap_def lookup_def)
  have "process example_registry cyclic_heap depth (JRef 0)
          (push [ESCAPE, JStr ''foo.js'', JNull] st) = Inl RangeError"
    by (rule Suc.IH) (simp add: push_def Suc.prems)
  then show ?case using Suc.prems
    by (simp add: process_object example_getSerializerFor PropertiesSerializer_serialize_def g
        del: get_prop.simps)
qed

text \<open>
  Claim C1, as the specification states it, holds for every object graph of registered
  types. An object that refers to itself is such a graph, and encoding it exhausts the
  stack at every depth; a registered field-list capability that omits a property
  decodes to an object without it.
\<close>

theorem roundtrip_counterexample:
  "(\<forall>depth. serialize example_registry cyclic_heap depth [JRef 0] = Inl RangeError) \<and>
   serialize example_registry unlisted_heap (Suc (Suc 0)) [JRef 0]
     = Inr [JNull, JStr ''foo.js'', JNull, JNum 1, JNum 2] \<and>
   deserialize example_require example_registry ''cache'' [] (Suc (Suc 0))
       [JNull, JStr ''foo.js'', JNull, JNum 1, JNum 2]
     = Inr ([JRef 0], [JSObject (Class ''Foo'') [(''a'', JNum 1), (''b'', JNum 2)]])"
proof (intro conjI allI)
  fix depth
  show "serialize example_registry cyclic_heap depth [JRef 0] = Inl RangeError"
    by (simp add: serialize_single cyclic_process enc_init_def)
next
  show "serialize example_registry unlisted_heap (Suc (Suc 0)) [JRef 0]
     = Inr [JNull, JStr ''foo.js'', JNull, JNum 1, JNum 2]"
    by (simp add: eval_defs example_defs unlisted_heap_def process.simps(2))
next
  show "deserialize example_require example_registry ''cache'' [] (Suc (Suc 0))
       [JNull, JStr ''foo.js'', JNull, JNum 1, JNum 2]
     = Inr ([JRef 0], [JSObject (Class ''Foo'') [(''a'', JNum 1), (''b'', JNum 2)]])"
    by (simp add: eval_defs example_defs Let_def decodeValue.simps(2))
qed

text \<open>
  Claim C1, amended. For every object graph without cycles and without functions whose
  objects are registered, under names that decoding resolves, with capabilities that
  restore what they wrote (a field-list capability that lists all properties and has no
  hook, or a capability whose reading side, given values that correspond to the written
  ones, reads exactly those and constructs one new object equal to the original up to
  the renaming of addresses): encoding the one-element
  sequence succeeds, and decoding the result yields one value and a heap that extends
  the heap decoding started from and is isomorphic to the original graph, the value
  being the image of the original; two references to one object decode to two
  references to one reconstructed object.
\<close>

theorem roundtrip_acyclic:
  assumes "encodable require reg h depth g"
  shows "\<exists>items g' h' f.
     serialize reg h depth [g] = Inr items \<and>
     deserialize require reg ctx h0 depth items = Inr ([g'], h') \<and>
     vrel f g g' \<and> graph_iso f h h' \<and> prefix h0 h' \<and>
     (\<forall>a a'. f a = Some a' \<longrightarrow> length h0 \<le> a')"
proof -
  from roundtrip_states[OF assms, of ctx h0] obtain st' f v' rst' where
    p: "process reg h depth g enc_init = Inr st'"
    and dv: "decodeValue require reg ctx (result st') depth (dec_init h0) = Inr (v', rst')"
    and sm: "sim h f st' rst'" and gr: "grows Map.empty (dec_init h0) f rst'"
    and vr: "vrel f g v'"
    by blast
  have s: "serialize reg h depth [g] = Inr (result st')"
    using p by (simp add: serialize_single)
  have d: "deserialize require reg ctx h0 depth (result st') = Inr ([v'], heap rst')"
    using deserialize_single[OF dv] sim_facts(3)[OF sm] by simp
  have "prefix h0 (heap rst')" and "\<forall>a a'. f a = Some a' \<longrightarrow> length h0 \<le> a'"
    using gr by (auto simp: grows_def dec_init_def)
  then show ?thesis using s d vr sim_facts(4)[OF sm] by blast
qed

theorem roundtrip_acyclic_witness:
  "encodable example_require example_registry example_heap (Suc (Suc (Suc 0))) (JRef 0) \<and>
   serialize example_registry example_heap (Suc (Suc (Suc 0))) [JRef 0] = Inr example_stream \<and>
   (\<exists>g' h' f.
      deserialize example_require example_registry ''cache'' [] (Suc (Suc (Suc 0))) example_stream
        = Inr ([g'], h') \<and>
      vrel f (JRef 0) g' \<and> graph_iso f example_heap h')"
  using roundtrip_acyclic [OF example_encodable, of "''cache''" "[]"] example_encodable
    example_serialize
  by auto


section \<open>Positions on both sides\<close>

text \<open>
  Claim C4. The write-side table only holds positions below the counter, so a
  back-reference has a negative offset. A string takes one position when it is
  emitted; an object takes the position the counter has after its capability has
  written all its values, and it is still absent from the table at that moment, so
  none of these values was emitted as a back-reference to it. \<^verbatim>\<open>decodeValue\<close> gives a
  string or a buffer one position when it reads it, and an object the position the
  counter has when the capability's \<^verbatim>\<open>deserialize\<close> has returned. Decoding what was encoded ends with the same counter,
  and its table holds at every position the image of the value the encoder gave that
  position.
\<close>

theorem positions_in_lockstep:
  "(table_ok st \<and> process reg h depth item st = Inr st' \<longrightarrow>
      table_ok st' \<and> currentPos st \<le> currentPos st') \<and>
   (table_ok st \<and> referenceable st item = Some ref \<longrightarrow>
      process reg h (Suc depth) item st = Inr (push [ESCAPE, JNum (ref - currentPos st)] st) \<and>
      ref - currentPos st < 0) \<and>
   (referenceable st (JStr s) = None \<longrightarrow>
      process reg h (Suc depth) (JStr s) st = Inr (push [JStr s] (addReferenceable (JStr s) st))) \<and>
   (referenceable st (JRef a) = None \<and> process reg h (Suc depth) (JRef a) st = Inr st' \<longrightarrow>
      (\<exists>cfg st1.
         getSerializerFor reg h (JRef a) = Inr cfg \<and>
         serializer_serialize (serializer cfg) h (JRef a) (process reg h depth)
             (push [ESCAPE, request cfg, exportName cfg] st) = Inr st1 \<and>
         st' = addReferenceable (JRef a) st1 \<and>
         currentPos st \<le> currentPos st1 \<and>
         referenceable st' (JRef a) = Some (currentPos st1) \<and>
         currentPos st' = currentPos st1 + 1 \<and>
         referenceable st1 (JRef a) = None)) \<and>
   (currentDataPos rst < length data \<and>
    (typeof (data ! currentDataPos rst) = ''string'' \<or>
     Buffer_isBuffer (heap rst) (data ! currentDataPos rst)) \<longrightarrow>
      decodeValue require reg ctx data (Suc depth) rst =
        Inr (data ! currentDataPos rst,
             addReferenceable' (data ! currentDataPos rst)
               (rst\<lparr>currentDataPos := currentDataPos rst + 1\<rparr>))) \<and>
   (currentDataPos rst + 2 < length data \<and> data ! currentDataPos rst = ESCAPE \<and>
    typeof (data ! (currentDataPos rst + 1)) \<noteq> ''number'' \<and>
    decodeValue require reg ctx data (Suc depth) rst = Inr (v, rst') \<longrightarrow>
      (\<exists>ser rst4.
         serializer_deserialize ser (decodeValue require reg ctx data depth)
             (rst\<lparr>currentDataPos := currentDataPos rst + 3\<rparr>) = Inr (v, rst4) \<and>
         rst' = addReferenceable' v rst4 \<and>
         referenceable' rst' (currentPos' rst4) = Some v \<and>
         currentPos' rst' = currentPos' rst4 + 1)) \<and>
   (encodable require reg h depth item \<longrightarrow>
      (\<exists>st' f v' rst'.
         process reg h depth item enc_init = Inr st' \<and>
         decodeValue require reg ctx (result st') depth (dec_init h0) = Inr (v', rst') \<and>
         vrel f item v' \<and>
         currentPos' rst' = currentPos st' \<and>
         (\<forall>x r. referenceable st' x = Some r \<longrightarrow>
            (\<exists>x'. referenceable' rst' r = Some x' \<and> vrel f x x'))))"
proof (intro conjI impI)
  assume a: "table_ok st \<and> process reg h depth item st = Inr st'"
  then have "enc_extends st st'" using process_extends by blast
  then show "table_ok st'" "currentPos st \<le> currentPos st'"
    using a by (auto simp: enc_extends_def)
next
  assume a: "table_ok st \<and> referenceable st item = Some ref"
  then show "process reg h (Suc depth) item st
      = Inr (push [ESCAPE, JNum (ref - currentPos st)] st)"
    by (simp add: process_hit)
  from a have "ref < currentPos st" by (auto simp: table_ok_def)
  then show "ref - currentPos st < 0" by simp
next
  assume "referenceable st (JStr s) = None"
  then show "process reg h (Suc depth) (JStr s) st
      = Inr (push [JStr s] (addReferenceable (JStr s) st))"
    by (rule process_string)
next
  assume a: "referenceable st (JRef a) = None \<and> process reg h (Suc depth) (JRef a) st = Inr st'"
  let ?hdr = "\<lambda>cfg. push [ESCAPE, request cfg, exportName cfg] st"
  from a obtain cfg :: config and st1 where
    g: "getSerializerFor reg h (JRef a) = Inr cfg"
    and run: "serializer_serialize (serializer cfg) h (JRef a) (process reg h depth) (?hdr cfg)
        = Inr st1"
    and st': "st' = addReferenceable (JRef a) st1"
    by (auto simp: process_object split: sum.splits)
  have "enc_extends (?hdr cfg) st1"
    using serializer_serialize_extends[OF _ run] process_extends by blast
  then have le: "currentPos st \<le> currentPos st1"
    by (simp add: enc_extends_def push_def)
  have nb: "referenceable st1 (JRef a) = None"
  proof -
    from g obtain obj where o: "lookup h a = Some obj"
      and sc: "serializers reg (constructor_of obj) = Some cfg"
      by (auto simp: getSerializerFor_def split: option.splits)
    from run obtain vs where wr: "written (serializer cfg) h (JRef a) = Inr vs"
      and run': "for_of (process reg h depth) vs (?hdr cfg) = Inr st1"
      by (auto simp: serializer_serialize_written split: sum.splits)
    have r0: "referenceable (?hdr cfg) (JRef a) = None" using a by (simp add: push_def)
    show ?thesis by (rule parent_stays_unregistered[OF o sc wr run' r0])
  qed
  show "\<exists>cfg st1.
         getSerializerFor reg h (JRef a) = Inr cfg \<and>
         serializer_serialize (serializer cfg) h (JRef a) (process reg h depth)
             (push [ESCAPE, request cfg, exportName cfg] st) = Inr st1 \<and>
         st' = addReferenceable (JRef a) st1 \<and>
         currentPos st \<le> currentPos st1 \<and>
         referenceable st' (JRef a) = Some (currentPos st1) \<and>
         currentPos st' = currentPos st1 + 1 \<and>
         referenceable st1 (JRef a) = None"
    apply (rule exI[of _ cfg], rule exI[of _ st1])
    using g run st' le nb by (simp add: addReferenceable_def)
next
  assume a: "currentDataPos rst < length data \<and>
    (typeof (data ! currentDataPos rst) = ''string'' \<or>
     Buffer_isBuffer (heap rst) (data ! currentDataPos rst))"
  then show "decodeValue require reg ctx data (Suc depth) rst =
        Inr (data ! currentDataPos rst,
             addReferenceable' (data ! currentDataPos rst)
               (rst\<lparr>currentDataPos := currentDataPos rst + 1\<rparr>))"
    by (cases "data ! currentDataPos rst")
      (auto simp: decodeValue.simps(2) read_def ESCAPE_def)
next
  assume a: "currentDataPos rst + 2 < length data \<and> data ! currentDataPos rst = ESCAPE \<and>
    typeof (data ! (currentDataPos rst + 1)) \<noteq> ''number'' \<and>
    decodeValue require reg ctx data (Suc depth) rst = Inr (v, rst')"
  then obtain ser rst4 where
    ds: "serializer_deserialize ser (decodeValue require reg ctx data depth)
             (rst\<lparr>currentDataPos := currentDataPos rst + 3\<rparr>) = Inr (v, rst4)"
    and r': "rst' = addReferenceable' v rst4"
    by (auto simp: decodeValue.simps(2) read_def ESCAPE_ESCAPE_VALUE_def numeral_3_eq_3
        split: sum.splits if_splits)
  show "\<exists>ser rst4.
         serializer_deserialize ser (decodeValue require reg ctx data depth)
             (rst\<lparr>currentDataPos := currentDataPos rst + 3\<rparr>) = Inr (v, rst4) \<and>
         rst' = addReferenceable' v rst4 \<and>
         referenceable' rst' (currentPos' rst4) = Some v \<and>
         currentPos' rst' = currentPos' rst4 + 1"
    apply (rule exI[of _ ser], rule exI[of _ rst4])
    using ds r' by (simp add: addReferenceable'_def)
next
  assume "encodable require reg h depth item"
  from roundtrip_states[OF this, of ctx h0] obtain st' f v' rst' where
    p: "process reg h depth item enc_init = Inr st'"
    and dv: "decodeValue require reg ctx (result st') depth (dec_init h0) = Inr (v', rst')"
    and sm: "sim h f st' rst'" and vr: "vrel f item v'"
    by blast
  have "currentPos' rst' = currentPos st'" using sim_facts(2)[OF sm] .
  moreover have "\<forall>x r. referenceable st' x = Some r \<longrightarrow>
            (\<exists>x'. referenceable' rst' r = Some x' \<and> vrel f x x')"
    using sim_table[OF sm] by blast
  ultimately show "\<exists>st' f v' rst'.
         process reg h depth item enc_init = Inr st' \<and>
         decodeValue require reg ctx (result st') depth (dec_init h0) = Inr (v', rst') \<and>
         vrel f item v' \<and>
         currentPos' rst' = currentPos st' \<and>
         (\<forall>x r. referenceable st' x = Some r \<longrightarrow>
            (\<exists>x'. referenceable' rst' r = Some x' \<and> vrel f x x'))"
    using p dv vr by blast
qed

theorem positions_in_lockstep_witness:
  "table_ok enc_init \<and>
   process example_registry example_heap (Suc (Suc (Suc 0))) (JRef 0) enc_init
     = Inr example_enc_final \<and>
   table_ok example_enc_final \<and> currentPos enc_init \<le> currentPos example_enc_final \<and>
   referenceable example_enc_final (JRef 1) = Some 2 \<and>
   process example_registry example_heap (Suc (Suc (Suc 0))) (JRef 1) example_enc_final
     = Inr (push [ESCAPE, JNum (- 2)] example_enc_final) \<and>
   referenceable enc_init (JStr ''x'') = None \<and>
   process example_registry example_heap (Suc (Suc (Suc 0))) (JStr ''x'') enc_init
     = Inr (push [JStr ''x''] (addReferenceable (JStr ''x'') enc_init)) \<and>
   referenceable enc_init (JRef 0) = None \<and>
   referenceable example_enc_final (JRef 0) = Some 3 \<and>
   decodeValue example_require example_registry ''cache'' [JStr ''x''] (Suc (Suc (Suc 0)))
       (dec_init [])
     = Inr (JStr ''x'',
            addReferenceable' (JStr ''x'') ((dec_init [])\<lparr>currentDataPos := 1\<rparr>)) \<and>
   decodeValue example_require example_registry ''cache'' example_stream (Suc (Suc (Suc 0)))
       (dec_init [])
     = Inr (JRef 0, example_dec_final) \<and>
   referenceable' example_dec_final 3 = Some (JRef 0) \<and>
   encodable example_require example_registry example_heap (Suc (Suc (Suc 0))) (JRef 0) \<and>
   currentPos' example_dec_final = currentPos example_enc_final"
proof -
  note T1 = positions_in_lockstep [where st = enc_init and reg = example_registry
      and h = example_heap and depth = "Suc (Suc 0)" and s = "''x''" and a = 0
      and st' = example_enc_final and require = example_require and rst = "dec_init []"
      and data = example_stream and v = "JRef 0" and rst' = example_dec_final
      and ctx = "''cache''"]
  note T2 = positions_in_lockstep [where st = enc_init and reg = example_registry
      and h = example_heap and depth = "Suc (Suc (Suc 0))" and item = "JRef 0"
      and st' = example_enc_final and require = example_require and rst = "dec_init []"
      and data = "[JStr ''x'']" and ctx = "''cache''" and h0 = "[]"]
  note T3 = positions_in_lockstep [where st = example_enc_final and reg = example_registry
      and h = example_heap and depth = "Suc (Suc 0)" and item = "JRef 1" and ref = 2]
  have t0: "table_ok enc_init" by (simp add: table_ok_def enc_init_def)
  have h1: "table_ok enc_init \<and>
      process example_registry example_heap (Suc (Suc (Suc 0))) (JRef 0) enc_init
        = Inr example_enc_final"
    using t0 example_process by simp
  from T2 h1 have c1: "table_ok example_enc_final \<and>
      currentPos enc_init \<le> currentPos example_enc_final" by blast
  have h2: "table_ok example_enc_final \<and> referenceable example_enc_final (JRef 1) = Some 2"
    using c1 by (simp add: example_enc_final_def)
  from T3 h2 have c2: "process example_registry example_heap (Suc (Suc (Suc 0))) (JRef 1)
      example_enc_final = Inr (push [ESCAPE, JNum (2 - currentPos example_enc_final)]
        example_enc_final)" by blast
  have h3: "referenceable enc_init (JStr ''x'') = None" by (simp add: enc_init_def)
  from T1 h3 have c3: "process example_registry example_heap (Suc (Suc (Suc 0))) (JStr ''x'')
      enc_init = Inr (push [JStr ''x''] (addReferenceable (JStr ''x'') enc_init))" by blast
  have h4: "referenceable enc_init (JRef 0) = None \<and>
      process example_registry example_heap (Suc (Suc (Suc 0))) (JRef 0) enc_init
        = Inr example_enc_final"
    using example_process by (simp add: enc_init_def)
  from T1 h4 have c4: "\<exists>cfg st1. example_enc_final = addReferenceable (JRef 0) st1 \<and>
      referenceable example_enc_final (JRef 0) = Some (currentPos st1) \<and>
      currentPos example_enc_final = currentPos st1 + 1 \<and>
      referenceable st1 (JRef 0) = None" by blast
  have h5: "currentDataPos (dec_init []) < length [JStr ''x''] \<and>
      (typeof ([JStr ''x''] ! currentDataPos (dec_init [])) = ''string'' \<or>
       Buffer_isBuffer (heap (dec_init [])) ([JStr ''x''] ! currentDataPos (dec_init [])))"
    by (simp add: dec_init_def)
  from T2 h5 have c5: "decodeValue example_require example_registry ''cache'' [JStr ''x'']
      (Suc (Suc (Suc (Suc 0)))) (dec_init []) =
        Inr ([JStr ''x''] ! currentDataPos (dec_init []),
             addReferenceable' ([JStr ''x''] ! currentDataPos (dec_init []))
               ((dec_init [])\<lparr>currentDataPos := currentDataPos (dec_init []) + 1\<rparr>))" by blast
  have h6: "currentDataPos (dec_init []) + 2 < length example_stream \<and>
      example_stream ! currentDataPos (dec_init []) = ESCAPE \<and>
      typeof (example_stream ! (currentDataPos (dec_init []) + 1)) \<noteq> ''number'' \<and>
      decodeValue example_require example_registry ''cache'' example_stream
        (Suc (Suc (Suc 0))) (dec_init []) = Inr (JRef 0, example_dec_final)"
    using example_decodeValue by (simp add: dec_init_def example_stream_def ESCAPE_def)
  from T1 h6 have c6: "\<exists>ser rst4. example_dec_final = addReferenceable' (JRef 0) rst4 \<and>
      referenceable' example_dec_final (currentPos' rst4) = Some (JRef 0) \<and>
      currentPos' example_dec_final = currentPos' rst4 + 1" by blast
  have h7: "encodable example_require example_registry example_heap (Suc (Suc (Suc 0))) (JRef 0)"
    by (rule example_encodable)
  from T2 h7 have c7: "\<exists>st' f v' rst'.
         process example_registry example_heap (Suc (Suc (Suc 0))) (JRef 0) enc_init = Inr st' \<and>
         decodeValue example_require example_registry ''cache'' (result st') (Suc (Suc (Suc 0)))
           (dec_init []) = Inr (v', rst') \<and>
         currentPos' rst' = currentPos st'" by blast
  have c7': "currentPos' example_dec_final = currentPos example_enc_final"
    using c7 example_process example_decodeValue by (auto simp: example_enc_final_def)
  have c5': "decodeValue example_require example_registry ''cache'' [JStr ''x'']
       (Suc (Suc (Suc 0))) (dec_init [])
     = Inr (JStr ''x'',
            addReferenceable' (JStr ''x'') ((dec_init [])\<lparr>currentDataPos := 1\<rparr>))"
    by (simp add: example_eval)
  have c4': "referenceable example_enc_final (JRef 0) = Some 3"
    using c4 by (auto simp: example_enc_final_def)
  have c6': "referenceable' example_dec_final 3 = Some (JRef 0)"
    using c6 by (auto simp: example_dec_final_def)
  have c2': "process example_registry example_heap (Suc (Suc (Suc 0))) (JRef 1) example_enc_final
     = Inr (push [ESCAPE, JNum (- 2)] example_enc_final)"
    using c2 by (simp add: example_enc_final_def)
  show ?thesis
    using t0 h1 c1 h2 c2' h3 c3 h4 c4' c5' h6 c6' h7 c7' by simp
qed

end
